theory Spec2Isabelle
  imports Main "HOL-Library.Sublist" "HOL-Library.Multiset"
begin

section \<open>Data model (types.ts)\<close>

text \<open>
  The values, the target and the tolerance are integers held in JavaScript numbers; a
  number is modelled by the integer it denotes, and the additions of the source round as
  doubles do (see \<open>jsAdd\<close> below). Indices, depths and step ids are naturals, except
  \<open>utxoIndex\<close>, which the source sets to \<open>startIndex - 1\<close> and which is therefore an
  integer (it is \<open>-1\<close> for a solution found at the root). Fields whose names occur in more
  than one interface carry a prefix: \<open>u_\<close> for \<open>Utxo\<close>, \<open>c_\<close> for
  \<open>SolutionCandidate\<close>, \<open>n_\<close> for \<open>TreeNode\<close>, \<open>st_\<close> for the mutable
  variables closed over by \<open>generateScenario\<close>.
\<close>

record Utxo =
  u_id :: string
  u_value :: int

datatype StepType =
  START | INCLUDE | EXCLUDE | PRUNE_VAL | PRUNE_SUM | SOLUTION | BACKTRACK | COMPLETE

record AlgorithmStep =
  stepId :: nat
  type :: StepType
  depth :: nat
  utxoIndex :: int
  currentSelection :: "nat list"
  currentSum :: int
  description :: string
  remainingValue :: int
  path :: "bool list"

record SolutionCandidate =
  c_path :: "bool list"
  stepIndex :: nat
  c_value :: int

datatype Outcome = success | failure

record Scenario =
  utxos :: "Utxo list"
  target :: int
  steps :: "AlgorithmStep list"
  outcome :: Outcome
  bestSolutionIndices :: "nat list option"
  bestSolutionPath :: "bool list option"
  candidates :: "SolutionCandidate list"

section \<open>Search engine (services/bnbAlgorithm.ts)\<close>

subsection \<open>Numbers\<close>

text \<open>
  A JavaScript number is an IEEE 754 double. The sum of two integer-valued doubles is their
  exact sum rounded to the nearest double, that is to 53 significant bits, a tie going to
  the even significand. \<open>excessBits n\<close> is the number of low bits of \<open>n\<close> that do not
  fit into 53 bits, \<open>roundDouble\<close> rounds an integer to the nearest double, and
  \<open>jsAdd\<close> is the \<open>+\<close> of the source. Sums of absolute value up to \<open>2 ^ 53\<close> are
  exact. Overflow to \<open>Infinity\<close> (beyond about \<open>1.8 * 10 ^ 308\<close>), \<open>NaN\<close> and
  fractions are outside the model. The counters and indices of the source (\<open>depth\<close>,
  \<open>startIndex\<close>, \<open>stepCounter\<close>) are counted exactly: they stay far below \<open>2 ^ 53\<close>.
\<close>

function excessBits :: "int \<Rightarrow> nat" where
  "excessBits n = (if n < 9007199254740992 then 0 else Suc (excessBits (n div 2)))"
  by pat_completeness auto
termination
  by (relation "measure (\<lambda>n. nat n)") auto

declare excessBits.simps [simp del]

definition roundDouble :: "int \<Rightarrow> int" where
  "roundDouble x =
     (let n = \<bar>x\<bar>;
          e = excessBits n;
          q = n div 2 ^ e;
          r = n mod 2 ^ e;
          q' = (if 2 * r > 2 ^ e \<or> (2 * r = 2 ^ e \<and> odd q) then q + 1 else q)
      in sgn x * (q' * 2 ^ e))"

definition jsAdd :: "int \<Rightarrow> int \<Rightarrow> int" where
  "jsAdd a b = roundDouble (a + b)"

subsection \<open>Numbers inside template literals\<close>

text \<open>
  The decimal text that a template literal gives for an integer: \<open>natToString\<close> for
  an index, \<open>numToString\<close> for a value that may be negative. These are the exact
  decimal digits, which is what JavaScript prints for a number of absolute value below
  \<open>2 ^ 53\<close>; for larger numbers JavaScript prints the shortest digits that identify the
  double, which is not modelled. The strings are carried in the steps only; no property
  below reads them.
\<close>

function natToString :: "nat \<Rightarrow> string" where
  "natToString n =
     (if n < 10 then [''0123456789'' ! n]
      else natToString (n div 10) @ [''0123456789'' ! (n mod 10)])"
  by pat_completeness auto
termination
  by (relation "measure (\<lambda>n. n)") auto

declare natToString.simps [simp del]

function digitsOf :: "int \<Rightarrow> string" where
  "digitsOf n =
     (if n < 10 then [''0123456789'' ! nat n]
      else digitsOf (n div 10) @ [''0123456789'' ! nat (n mod 10)])"
  by pat_completeness auto
termination
  by (relation "measure (\<lambda>n. nat n)") auto

declare digitsOf.simps [simp del]

definition numToString :: "int \<Rightarrow> string" where
  "numToString i = (if i < 0 then ''-'' @ digitsOf (- i) else digitsOf i)"

subsection \<open>The state closed over by the helpers\<close>

record search_state =
  st_steps :: "AlgorithmStep list"
  st_candidates :: "SolutionCandidate list"
  stepCounter :: nat
  foundAnySolution :: bool
  st_bestSolutionIndices :: "nat list option"
  st_bestSolutionPath :: "bool list option"

definition initial_state :: search_state where
  "initial_state =
     \<lparr>st_steps = [], st_candidates = [], stepCounter = 0, foundAnySolution = False,
      st_bestSolutionIndices = None, st_bestSolutionPath = None\<rparr>"

text \<open>
  The values are sorted with the comparator \<open>b - a\<close>, that is in descending order (the
  rounded difference of two numbers has the sign of the exact difference), by a stable
  sort (an insertion sort on the key \<open>- v\<close>), and numbered in that order.
\<close>

definition prepareUtxos :: "int list \<Rightarrow> Utxo list" where
  "prepareUtxos utxoValues =
     map (\<lambda>(idx, val). \<lparr>u_id = ''utxo-'' @ natToString idx, u_value = val\<rparr>)
       (enumerate 0 (sort_key (\<lambda>v. - v) utxoValues))"

text \<open>The \<open>for\<close> loop of \<open>getRemainingSum\<close>, from \<open>startIndex\<close> to the last value.\<close>

function getRemainingSum_loop :: "Utxo list \<Rightarrow> nat \<Rightarrow> int \<Rightarrow> int" where
  "getRemainingSum_loop us i acc =
     (if i < length us then getRemainingSum_loop us (i + 1) (jsAdd acc (u_value (us ! i)))
      else acc)"
  by pat_completeness auto
termination
  by (relation "measure (\<lambda>(us, i, acc). length us - i)") auto

declare getRemainingSum_loop.simps [simp del]

definition getRemainingSum :: "Utxo list \<Rightarrow> nat \<Rightarrow> int" where
  "getRemainingSum us startIndex = getRemainingSum_loop us startIndex 0"

text \<open>
  \<open>recordStep\<close> appends one step, numbered by the counter, and increments the counter.
  Every call site passes an index of at least \<open>-1\<close>, so the remaining sum is taken from
  a natural start index.
\<close>

definition recordStep ::
  "Utxo list \<Rightarrow> StepType \<Rightarrow> nat \<Rightarrow> int \<Rightarrow> nat list \<Rightarrow> int \<Rightarrow> string \<Rightarrow> bool list
     \<Rightarrow> search_state \<Rightarrow> search_state" where
  "recordStep us ty d idx selection csum desc p st =
     st\<lparr>st_steps := st_steps st @
           [\<lparr>stepId = stepCounter st, type = ty, depth = d, utxoIndex = idx,
             currentSelection = selection, currentSum = csum, description = desc,
             remainingValue = getRemainingSum us (nat (idx + 1)), path = p\<rparr>],
        stepCounter := stepCounter st + 1\<rparr>"

text \<open>The rationale strings that \<open>backtrack\<close> builds with template literals.\<close>

definition solutionDescription :: "int \<Rightarrow> string" where
  "solutionDescription csum =
     ''Candidate Solution found! Sum: '' @ numToString csum @
     ''. Core records this and continues searching for lower waste.''"

definition pruneSumDescription :: "int \<Rightarrow> int \<Rightarrow> int \<Rightarrow> string" where
  "pruneSumDescription csum remaining tgt =
     ''Pruned: Current ('' @ numToString csum @ '') + Remaining ('' @
     numToString remaining @ '') < Target ('' @ numToString tgt @ '')''"

definition pruneValDescription :: "int \<Rightarrow> string" where
  "pruneValDescription csum =
     ''Pruned: Current ('' @ numToString csum @ '') exceeds Target + Tolerance''"

definition includeDescription :: "nat \<Rightarrow> int \<Rightarrow> string" where
  "includeDescription startIndex v =
     ''Checking UTXO #'' @ natToString startIndex @ '' ('' @ numToString v @ ''): INCLUDED''"

definition excludeDescription :: "nat \<Rightarrow> int \<Rightarrow> string" where
  "excludeDescription startIndex v =
     ''Backtracking. Now checking UTXO #'' @ natToString startIndex @ '' ('' @
     numToString v @ ''): EXCLUDED''"

text \<open>
  The recursive search. Its arguments are those of the source (\<open>depth\<close>,
  \<open>currentSelection\<close>, \<open>currentSum\<close>, \<open>startIndex\<close>, \<open>path\<close>), after the values, the
  target and the tolerance it closes over, and before the state it updates. The tests are
  made in the order of the source: solution, end of the values, the two prune conditions; then
  the include branch is recorded and searched, and after it the exclude branch.
\<close>

function backtrack ::
  "Utxo list \<Rightarrow> int \<Rightarrow> int \<Rightarrow> nat \<Rightarrow> nat list \<Rightarrow> int \<Rightarrow> nat \<Rightarrow> bool list
     \<Rightarrow> search_state \<Rightarrow> search_state" where
  "backtrack us tgt dustThreshold d selection csum startIndex p st =
     (if csum = tgt \<or> (csum > tgt \<and> csum \<le> jsAdd tgt dustThreshold) then
        recordStep us SOLUTION d (int startIndex - 1) selection csum
          (solutionDescription csum) p
          (st\<lparr>foundAnySolution := True,
              st_bestSolutionIndices := Some selection,
              st_bestSolutionPath := Some p,
              st_candidates := st_candidates st @
                [\<lparr>c_path = p, stepIndex = stepCounter st, c_value = csum\<rparr>]\<rparr>)
      else if startIndex \<ge> length us then
        recordStep us BACKTRACK d (int startIndex) selection csum
          ''End of branch reached. Backtracking.'' p st
      else if jsAdd csum (getRemainingSum us startIndex) < tgt then
        recordStep us PRUNE_SUM d (int startIndex) selection csum
          (pruneSumDescription csum (getRemainingSum us startIndex) tgt) p st
      else if csum > jsAdd tgt dustThreshold then
        recordStep us PRUNE_VAL d (int startIndex) selection csum
          (pruneValDescription csum) p st
      else
        backtrack us tgt dustThreshold (d + 1) selection csum (startIndex + 1) (p @ [False])
          (recordStep us EXCLUDE d (int startIndex) selection csum
             (excludeDescription startIndex (u_value (us ! startIndex))) (p @ [False])
             (backtrack us tgt dustThreshold (d + 1) (selection @ [startIndex])
                (jsAdd csum (u_value (us ! startIndex))) (startIndex + 1) (p @ [True])
                (recordStep us INCLUDE d (int startIndex) (selection @ [startIndex])
                   (jsAdd csum (u_value (us ! startIndex)))
                   (includeDescription startIndex (u_value (us ! startIndex))) (p @ [True])
                   st))))"
  by pat_completeness auto
termination
  by (relation "measure (\<lambda>(us, tgt, dustThreshold, d, selection, csum, startIndex, p, st).
        length us - startIndex)") auto

declare backtrack.simps [simp del]

text \<open>
  The top-level function: the search from the root, then the \<open>COMPLETE\<close> step at depth
  0 with the empty path. It has no other exit: the source validates nothing and throws
  nothing.
\<close>

definition generateScenario :: "int list \<Rightarrow> int \<Rightarrow> int \<Rightarrow> Scenario" where
  "generateScenario utxoValues tgt dustThreshold =
     (let us = prepareUtxos utxoValues;
          st1 = backtrack us tgt dustThreshold 0 [] 0 0 [] initial_state;
          st2 = recordStep us COMPLETE 0 0 [] 0
                  (if foundAnySolution st1 then ''Search Complete. Best solution returned.''
                   else ''Search Complete. No solution found.'') [] st1
      in \<lparr>utxos = us, target = tgt, steps = st_steps st2,
          outcome = (if foundAnySolution st2 then success else failure),
          bestSolutionIndices = st_bestSolutionIndices st2,
          bestSolutionPath = st_bestSolutionPath st2,
          candidates = st_candidates st2\<rparr>)"

section \<open>Trace replay (components/TreeGraph.tsx)\<close>

text \<open>
  The replay keeps a map from path ids to tree nodes. The coordinates of a node and the
  edge list serve the rendering only and are left out; no status depends on them. The
  cursor \<open>currentStepIndex\<close> is a natural number. Reading \<open>steps[i]\<close> beyond the end of
  the trace yields \<open>undefined\<close>, whose \<open>path\<close> cannot be read: that is the error
  \<open>TypeError\<close>.
\<close>

datatype NodeStatus = pending | visited | active | pruned | solution

record TreeNode =
  n_id :: string
  n_path :: "bool list"
  status :: NodeStatus
  n_type :: "StepType option"

datatype replay_error = TypeError

type_synonym NodeMap = "string \<rightharpoonup> TreeNode"

definition getPathId :: "bool list \<Rightarrow> string" where
  "getPathId p = concat (map (\<lambda>b. if b then ''1'' else ''0'') p)"

definition rootNode :: TreeNode where
  "rootNode = \<lparr>n_id = getPathId [], n_path = [], status = pending, n_type = None\<rparr>"

text \<open>The \<open>forEach\<close> over the path of a step: every node on the way is created once.\<close>

fun tracePath :: "bool list \<Rightarrow> bool list \<Rightarrow> NodeMap \<Rightarrow> NodeMap" where
  "tracePath currentPathArr [] nodeMap = nodeMap"
| "tracePath currentPathArr (direction # rest) nodeMap =
     tracePath (currentPathArr @ [direction]) rest
       (if nodeMap (getPathId (currentPathArr @ [direction])) = None then
          nodeMap(getPathId (currentPathArr @ [direction]) \<mapsto>
            \<lparr>n_id = getPathId (currentPathArr @ [direction]),
             n_path = currentPathArr @ [direction], status = visited, n_type = None\<rparr>)
        else nodeMap)"

text \<open>The status update of the node that a step targets.\<close>

definition touchNode :: "bool \<Rightarrow> StepType \<Rightarrow> TreeNode \<Rightarrow> TreeNode" where
  "touchNode isCurrent ty node =
     (let n1 = (if isCurrent then node\<lparr>status := active\<rparr>
                else if status node \<noteq> pruned \<and> status node \<noteq> solution
                then node\<lparr>status := visited\<rparr> else node);
          n2 = (if ty = PRUNE_SUM \<or> ty = PRUNE_VAL then n1\<lparr>status := pruned\<rparr> else n1);
          n3 = (if ty = SOLUTION then n2\<lparr>status := solution\<rparr> else n2)
      in if isCurrent then
           (if ty = PRUNE_SUM \<or> ty = PRUNE_VAL then n3\<lparr>status := pruned, n_type := Some ty\<rparr>
            else if ty = SOLUTION then n3\<lparr>status := solution, n_type := Some ty\<rparr>
            else n3\<lparr>status := active\<rparr>)
         else n3)"

definition replayStep :: "nat \<Rightarrow> nat \<Rightarrow> AlgorithmStep \<Rightarrow> NodeMap \<Rightarrow> NodeMap" where
  "replayStep currentStepIndex i step nodeMap =
     (case tracePath [] (path step) nodeMap (getPathId (path step)) of
        None \<Rightarrow> tracePath [] (path step) nodeMap
      | Some node \<Rightarrow>
          (tracePath [] (path step) nodeMap)
            (getPathId (path step) \<mapsto> touchNode (i = currentStepIndex) (type step) node))"

function replayLoop ::
  "AlgorithmStep list \<Rightarrow> nat \<Rightarrow> nat \<Rightarrow> NodeMap \<Rightarrow> replay_error + NodeMap" where
  "replayLoop stepList currentStepIndex i nodeMap =
     (if i \<le> currentStepIndex then
        (if i < length stepList then
           replayLoop stepList currentStepIndex (i + 1)
             (replayStep currentStepIndex i (stepList ! i) nodeMap)
         else Inl TypeError)
      else Inr nodeMap)"
  by pat_completeness auto
termination
  by (relation "measure (\<lambda>(stepList, currentStepIndex, i, nodeMap). Suc currentStepIndex - i)")
    auto

declare replayLoop.simps [simp del]

definition buildTree :: "AlgorithmStep list \<Rightarrow> nat \<Rightarrow> replay_error + NodeMap" where
  "buildTree stepList currentStepIndex =
     replayLoop stepList currentStepIndex 0 [getPathId [] \<mapsto> rootNode]"

text \<open>The status of the node at a path in the tree rebuilt for a cursor.\<close>

definition nodeStatusAt :: "AlgorithmStep list \<Rightarrow> nat \<Rightarrow> bool list \<Rightarrow> NodeStatus option" where
  "nodeStatusAt stepList currentStepIndex p =
     (case buildTree stepList currentStepIndex of
        Inl e \<Rightarrow> None
      | Inr nodeMap \<Rightarrow> map_option status (nodeMap (getPathId p)))"

subsection \<open>Lineage classification\<close>

datatype PathStatus = best | candidate | none

definition isPrefix :: "bool list \<Rightarrow> bool list \<Rightarrow> bool" where
  "isPrefix pre fullPath =
     (if length pre > length fullPath then False
      else list_all (\<lambda>i. pre ! i = fullPath ! i) [0..<length pre])"

fun candidateLoop :: "bool list \<Rightarrow> SolutionCandidate list \<Rightarrow> PathStatus" where
  "candidateLoop p [] = none"
| "candidateLoop p (cand # rest) =
     (if isPrefix p (c_path cand) \<and> length p \<le> length (c_path cand) then candidate
      else candidateLoop p rest)"

definition getPathStatus ::
  "bool list option \<Rightarrow> SolutionCandidate list \<Rightarrow> nat \<Rightarrow> bool list \<Rightarrow> PathStatus" where
  "getPathStatus bestPath cands currentStepIndex p =
     (case bestPath of
        Some b \<Rightarrow>
          if isPrefix p b \<and> length p \<le> length b then best
          else candidateLoop p (filter (\<lambda>c. stepIndex c \<le> currentStepIndex) cands)
      | None \<Rightarrow> candidateLoop p (filter (\<lambda>c. stepIndex c \<le> currentStepIndex) cands))"

section \<open>Predicates used to state the properties of the trace\<close>

text \<open>The solution test as \<open>backtrack\<close> makes it, with the rounded sum of target and tolerance.\<close>

definition solutionSteps_ok :: "int \<Rightarrow> int \<Rightarrow> AlgorithmStep list \<Rightarrow> bool" where
  "solutionSteps_ok tgt dust xs \<longleftrightarrow>
     (\<forall>s\<in>set xs. type s = SOLUTION \<longrightarrow>
        currentSum s = tgt \<or> (tgt < currentSum s \<and> currentSum s \<le> jsAdd tgt dust))"

text \<open>
  The sum of the sorted values at the positions where a path holds \<open>true\<close>: position
  \<open>k\<close> of a path stands for the value with sorted index \<open>k\<close>.
\<close>

definition pathSum :: "Utxo list \<Rightarrow> bool list \<Rightarrow> int" where
  "pathSum us p = sum_list (map (\<lambda>k. u_value (us ! k)) (filter (\<lambda>k. p ! k) [0..<length p]))"

definition sumInvariant :: "Utxo list \<Rightarrow> AlgorithmStep list \<Rightarrow> bool" where
  "sumInvariant us xs \<longleftrightarrow>
     (\<forall>s\<in>set xs. length (path s) \<le> length us \<and> currentSum s = pathSum us (path s))"

text \<open>The indices that a path selects.\<close>

definition selectionOf :: "bool list \<Rightarrow> nat list" where
  "selectionOf p = filter (\<lambda>k. p ! k) [0..<length p]"


text \<open>
  The inputs on which every sum that the search forms is exact: the absolute values add up
  to at most \<open>2 ^ 53\<close>. \<open>exactArgs\<close> is what then holds of the arguments of every call of
  \<open>backtrack\<close>.
\<close>

definition absTotal :: "Utxo list \<Rightarrow> int" where
  "absTotal us = sum_list (map (\<lambda>u. \<bar>u_value u\<bar>) us)"

definition exactArgs :: "Utxo list \<Rightarrow> int \<Rightarrow> nat \<Rightarrow> bool list \<Rightarrow> bool" where
  "exactArgs us csum k p \<longleftrightarrow>
     csum = pathSum us p \<and> length p = k \<and> k \<le> length us \<and>
     \<bar>csum\<bar> + absTotal (drop k us) \<le> 2 ^ 53"



definition kindAndPath :: "AlgorithmStep \<Rightarrow> StepType \<times> bool list" where
  "kindAndPath s = (type s, path s)"

definition isComplete :: "AlgorithmStep \<Rightarrow> bool" where
  "isComplete s \<longleftrightarrow> type s = COMPLETE"

text \<open>How the best solution of a state relates to its candidates and its steps.\<close>

definition bestIsLast ::
  "AlgorithmStep list \<Rightarrow> SolutionCandidate list \<Rightarrow> nat list option \<Rightarrow> bool list option \<Rightarrow> bool"
  where
  "bestIsLast xs cs bestIndices bestPath \<longleftrightarrow>
     (if cs = [] then bestIndices = None \<and> bestPath = None
      else bestPath = Some (c_path (last cs)) \<and>
           bestIndices = Some (selectionOf (c_path (last cs))) \<and>
           stepIndex (last cs) < length xs \<and>
           bestIndices = Some (currentSelection (xs ! stepIndex (last cs))))"

definition candidateRecorded :: "AlgorithmStep list \<Rightarrow> SolutionCandidate \<Rightarrow> bool" where
  "candidateRecorded xs c \<longleftrightarrow>
     stepIndex c < length xs \<and>
     stepId (xs ! stepIndex c) = stepIndex c \<and>
     type (xs ! stepIndex c) = SOLUTION \<and>
     path (xs ! stepIndex c) = c_path c \<and>
     currentSum (xs ! stepIndex c) = c_value c"

text \<open>The invariant that \<open>backtrack\<close> keeps between the best solution and the candidates.\<close>

definition bestInv :: "search_state \<Rightarrow> bool" where
  "bestInv st \<longleftrightarrow>
     stepCounter st = length (st_steps st) \<and>
     (foundAnySolution st \<longleftrightarrow> st_candidates st \<noteq> []) \<and>
     bestIsLast (st_steps st) (st_candidates st) (st_bestSolutionIndices st) (st_bestSolutionPath st)"

text \<open>The invariant that ties every candidate to the \<open>SOLUTION\<close> step it announces.\<close>

definition candInv :: "search_state \<Rightarrow> bool" where
  "candInv st \<longleftrightarrow>
     stepCounter st = length (st_steps st) \<and>
     (\<forall>i<length (st_steps st). stepId (st_steps st ! i) = i) \<and>
     (\<forall>c\<in>set (st_candidates st). candidateRecorded (st_steps st) c)"

definition noComplete :: "AlgorithmStep list \<Rightarrow> bool" where
  "noComplete xs \<longleftrightarrow> filter isComplete xs = []"

subsection \<open>The replay seen from a single node\<close>

text \<open>
  The statuses that the replay gives to one node can be followed without the rest of the
  map: \<open>touchStatus\<close> is the status part of \<open>touchNode\<close>, and \<open>nodeStep\<close> is the
  effect of one step on the status of the node at path \<open>p\<close> (\<open>None\<close> while the node
  does not exist). Both are proved below to agree with \<open>replayStep\<close>.
\<close>

definition statusOf :: "NodeMap \<Rightarrow> bool list \<Rightarrow> NodeStatus option" where
  "statusOf nodeMap p = map_option status (nodeMap (getPathId p))"

definition touchStatus :: "bool \<Rightarrow> StepType \<Rightarrow> NodeStatus \<Rightarrow> NodeStatus" where
  "touchStatus isCurrent ty old =
     (if ty = PRUNE_SUM \<or> ty = PRUNE_VAL then pruned
      else if ty = SOLUTION then solution
      else if isCurrent then active
      else if old = pruned \<or> old = solution then old
      else visited)"

definition nodeStep ::
  "bool \<Rightarrow> bool list \<Rightarrow> AlgorithmStep \<Rightarrow> NodeStatus option \<Rightarrow> NodeStatus option" where
  "nodeStep isCurrent p s st =
     (let st1 = (case st of
                   None \<Rightarrow> if p \<noteq> [] \<and> prefix p (path s) then Some visited else None
                 | Some old \<Rightarrow> Some old)
      in if path s = p then map_option (touchStatus isCurrent (type s)) st1 else st1)"

definition initialStatus :: "bool list \<Rightarrow> NodeStatus option" where
  "initialStatus p = (if p = [] then Some pending else None)"

text \<open>
  The steps after which \<open>backtrack\<close> returns at once, and the property that the path of
  such a step does not occur again later in a list of steps.
\<close>

definition isTerminal :: "StepType \<Rightarrow> bool" where
  "isTerminal ty \<longleftrightarrow> ty = PRUNE_SUM \<or> ty = PRUNE_VAL \<or> ty = SOLUTION"

fun terminalsFinal :: "AlgorithmStep list \<Rightarrow> bool" where
  "terminalsFinal [] = True"
| "terminalsFinal (s # ss) =
     ((isTerminal (type s) \<longrightarrow> list_all (\<lambda>t. path t \<noteq> path s) ss) \<and> terminalsFinal ss)"

definition emitsBelow :: "bool list \<Rightarrow> search_state \<Rightarrow> search_state \<Rightarrow> bool" where
  "emitsBelow p st st' \<longleftrightarrow>
     (\<exists>es. st_steps st' = st_steps st @ es \<and> list_all (\<lambda>t. prefix p (path t)) es \<and>
           list_all (\<lambda>t. type t \<noteq> COMPLETE) es \<and> terminalsFinal es)"

definition terminalStatus :: "StepType \<Rightarrow> NodeStatus" where
  "terminalStatus ty = (if ty = SOLUTION then solution else pruned)"

section \<open>Basic facts about the search engine\<close>

lemma st_steps_recordStep [simp]:
  "st_steps (recordStep us ty d idx sel csum desc p st) =
     st_steps st @
       [\<lparr>stepId = stepCounter st, type = ty, depth = d, utxoIndex = idx,
         currentSelection = sel, currentSum = csum, description = desc,
         remainingValue = getRemainingSum us (nat (idx + 1)), path = p\<rparr>]"
  by (simp add: recordStep_def)

lemma stepCounter_recordStep [simp]:
  "stepCounter (recordStep us ty d idx sel csum desc p st) = Suc (stepCounter st)"
  by (simp add: recordStep_def)

lemma recordStep_others [simp]:
  "st_candidates (recordStep us ty d idx sel csum desc p st) = st_candidates st"
  "foundAnySolution (recordStep us ty d idx sel csum desc p st) = foundAnySolution st"
  "st_bestSolutionIndices (recordStep us ty d idx sel csum desc p st) = st_bestSolutionIndices st"
  "st_bestSolutionPath (recordStep us ty d idx sel csum desc p st) = st_bestSolutionPath st"
  by (simp_all add: recordStep_def)

lemma backtrack_rule:
  fixes Q :: "nat \<Rightarrow> nat list \<Rightarrow> int \<Rightarrow> nat \<Rightarrow> bool list \<Rightarrow> search_state \<Rightarrow> search_state \<Rightarrow> bool"
  assumes sol: "\<And>d sel csum k p st.
      csum = tgt \<or> (csum > tgt \<and> csum \<le> jsAdd tgt dust) \<Longrightarrow>
      Q d sel csum k p st
        (recordStep us SOLUTION d (int k - 1) sel csum (solutionDescription csum) p
          (st\<lparr>foundAnySolution := True,
              st_bestSolutionIndices := Some sel,
              st_bestSolutionPath := Some p,
              st_candidates := st_candidates st @
                [\<lparr>c_path = p, stepIndex = stepCounter st, c_value = csum\<rparr>]\<rparr>))"
    and exh: "\<And>d sel csum k p st.
      \<not> (csum = tgt \<or> (csum > tgt \<and> csum \<le> jsAdd tgt dust)) \<Longrightarrow> length us \<le> k \<Longrightarrow>
      Q d sel csum k p st
        (recordStep us BACKTRACK d (int k) sel csum ''End of branch reached. Backtracking.'' p st)"
    and ps: "\<And>d sel csum k p st.
      \<not> (csum = tgt \<or> (csum > tgt \<and> csum \<le> jsAdd tgt dust)) \<Longrightarrow> k < length us \<Longrightarrow>
      jsAdd csum (getRemainingSum us k) < tgt \<Longrightarrow>
      Q d sel csum k p st
        (recordStep us PRUNE_SUM d (int k) sel csum
           (pruneSumDescription csum (getRemainingSum us k) tgt) p st)"
    and pv: "\<And>d sel csum k p st.
      \<not> (csum = tgt \<or> (csum > tgt \<and> csum \<le> jsAdd tgt dust)) \<Longrightarrow> k < length us \<Longrightarrow>
      \<not> jsAdd csum (getRemainingSum us k) < tgt \<Longrightarrow> csum > jsAdd tgt dust \<Longrightarrow>
      Q d sel csum k p st
        (recordStep us PRUNE_VAL d (int k) sel csum (pruneValDescription csum) p st)"
    and br: "\<And>d sel csum k p st st2 st4.
      \<not> (csum = tgt \<or> (csum > tgt \<and> csum \<le> jsAdd tgt dust)) \<Longrightarrow> k < length us \<Longrightarrow>
      \<not> jsAdd csum (getRemainingSum us k) < tgt \<Longrightarrow> \<not> csum > jsAdd tgt dust \<Longrightarrow>
      Q (d + 1) (sel @ [k]) (jsAdd csum (u_value (us ! k))) (k + 1) (p @ [True])
        (recordStep us INCLUDE d (int k) (sel @ [k]) (jsAdd csum (u_value (us ! k)))
           (includeDescription k (u_value (us ! k))) (p @ [True]) st) st2 \<Longrightarrow>
      Q (d + 1) sel csum (k + 1) (p @ [False])
        (recordStep us EXCLUDE d (int k) sel csum
           (excludeDescription k (u_value (us ! k))) (p @ [False]) st2) st4 \<Longrightarrow>
      Q d sel csum k p st st4"
  shows "Q d sel csum k p st (backtrack us tgt dust d sel csum k p st)"
  using assms
proof (induction us tgt dust d sel csum k p st rule: backtrack.induct)
  case (1 us tgt dust d sel csum k p st)
  note rules = "1.prems"
  let ?solved = "csum = tgt \<or> (csum > tgt \<and> csum \<le> jsAdd tgt dust)"
  show ?case
  proof (cases ?solved)
    case True
    then have "backtrack us tgt dust d sel csum k p st =
        recordStep us SOLUTION d (int k - 1) sel csum (solutionDescription csum) p
          (st\<lparr>foundAnySolution := True,
              st_bestSolutionIndices := Some sel,
              st_bestSolutionPath := Some p,
              st_candidates := st_candidates st @
                [\<lparr>c_path = p, stepIndex = stepCounter st, c_value = csum\<rparr>]\<rparr>)"
      by (subst backtrack.simps) (simp only: if_True)
    with rules(1)[OF True] show ?thesis by simp
  next
    case ns: False
    show ?thesis
    proof (cases "length us \<le> k")
      case True
      with ns have "backtrack us tgt dust d sel csum k p st =
          recordStep us BACKTRACK d (int k) sel csum ''End of branch reached. Backtracking.'' p st"
        by (subst backtrack.simps) (simp only: if_True if_False)
      with rules(2)[OF ns True] show ?thesis by simp
    next
      case False
      then have lt: "k < length us" by simp
      show ?thesis
      proof (cases "jsAdd csum (getRemainingSum us k) < tgt")
        case True
        with ns False have "backtrack us tgt dust d sel csum k p st =
            recordStep us PRUNE_SUM d (int k) sel csum
              (pruneSumDescription csum (getRemainingSum us k) tgt) p st"
          by (subst backtrack.simps) (simp only: if_True if_False)
        with rules(3)[OF ns lt True] show ?thesis by simp
      next
        case nps: False
        show ?thesis
        proof (cases "csum > jsAdd tgt dust")
          case True
          with ns False nps have "backtrack us tgt dust d sel csum k p st =
              recordStep us PRUNE_VAL d (int k) sel csum (pruneValDescription csum) p st"
            by (subst backtrack.simps) (simp only: if_True if_False)
          with rules(4)[OF ns lt nps True] show ?thesis by simp
        next
          case npv: False
          let ?st1 = "recordStep us INCLUDE d (int k) (sel @ [k]) (jsAdd csum (u_value (us ! k)))
                        (includeDescription k (u_value (us ! k))) (p @ [True]) st"
          let ?st2 = "backtrack us tgt dust (d + 1) (sel @ [k]) (jsAdd csum (u_value (us ! k)))
                        (k + 1) (p @ [True]) ?st1"
          let ?st3 = "recordStep us EXCLUDE d (int k) sel csum
                        (excludeDescription k (u_value (us ! k))) (p @ [False]) ?st2"
          let ?st4 = "backtrack us tgt dust (d + 1) sel csum (k + 1) (p @ [False]) ?st3"
          from ns False nps npv have eq: "backtrack us tgt dust d sel csum k p st = ?st4"
            by (subst backtrack.simps) (simp only: if_True if_False)
          have q1: "Q (d + 1) (sel @ [k]) (jsAdd csum (u_value (us ! k))) (k + 1) (p @ [True]) ?st1 ?st2"
            by (rule "1.IH"(1)[OF ns False nps npv]) (fact rules)+
          have q2: "Q (d + 1) sel csum (k + 1) (p @ [False]) ?st3 ?st4"
            by (rule "1.IH"(2)[OF ns False nps npv]) (fact rules)+
          from rules(5)[OF ns lt nps npv q1 q2] eq show ?thesis by simp
        qed
      qed
    qed
  qed
qed

text \<open>Sums of absolute value up to \<open>2 ^ 53\<close> are not rounded.\<close>

lemma excessBits_small: "n < 9007199254740992 \<Longrightarrow> excessBits n = 0"
  by (subst excessBits.simps) simp

lemma excessBits_limit: "excessBits 9007199254740992 = 1"
  by (subst excessBits.simps, simp, subst excessBits.simps, simp)

lemma roundDouble_exact:
  assumes "\<bar>x\<bar> \<le> 2 ^ 53"
  shows "roundDouble x = x"
proof (cases "\<bar>x\<bar> < 9007199254740992")
  case True
  then show ?thesis
    by (simp add: roundDouble_def Let_def excessBits_small mult_sgn_abs)
next
  case False
  with assms have "\<bar>x\<bar> = 9007199254740992"
    by simp
  then have "roundDouble x = sgn x * \<bar>x\<bar>"
    by (simp add: roundDouble_def Let_def excessBits_limit)
  then show ?thesis
    by (simp add: mult_sgn_abs)
qed

lemma jsAdd_exact: "\<bar>a + b\<bar> \<le> 2 ^ 53 \<Longrightarrow> jsAdd a b = a + b"
  by (simp add: jsAdd_def roundDouble_exact)

lemma absTotal_nonneg: "0 \<le> absTotal us"
  by (induction us) (simp_all add: absTotal_def)

lemma absTotal_drop:
  "k < length us \<Longrightarrow> absTotal (drop k us) = \<bar>u_value (us ! k)\<bar> + absTotal (drop (Suc k) us)"
  by (simp add: absTotal_def Cons_nth_drop_Suc [symmetric])




text \<open>The values are kept in descending order; the sort only permutes them.\<close>

lemma values_prepareUtxos:
  "map u_value (prepareUtxos utxoValues) = sort_key (\<lambda>v. - v) utxoValues"
proof -
  have "map u_value (prepareUtxos utxoValues) =
      map snd (enumerate 0 (sort_key (\<lambda>v. - v) utxoValues))"
    by (simp add: prepareUtxos_def case_prod_unfold comp_def)
  then show ?thesis by simp
qed

lemma prepareUtxos_descending:
  "sorted_wrt (\<lambda>a b. b \<le> a) (map u_value (prepareUtxos utxoValues)) \<and>
   mset (map u_value (prepareUtxos utxoValues)) = mset utxoValues"
proof -
  have "sorted (map (\<lambda>v. - v) (sort_key (\<lambda>v. - v) utxoValues))"
    by (rule sorted_sort_key)
  then have "sorted_wrt (\<lambda>a b. b \<le> a) (sort_key (\<lambda>v. - v) utxoValues)"
    by (simp add: sorted_wrt_map)
  then show ?thesis
    by (simp add: values_prepareUtxos)
qed

text \<open>The trace of the third example of the specification, used by the witnesses below.\<close>

lemma example3_length: "length (steps (generateScenario [60, 50, 25] 110 0)) = 8"
  by code_simp

section \<open>Solution correctness\<close>

lemma backtrack_solutionSteps_ok:
  "solutionSteps_ok tgt dust (st_steps st) \<longrightarrow>
   solutionSteps_ok tgt dust (st_steps (backtrack us tgt dust d sel csum k p st))"
  by (rule backtrack_rule [where Q = "\<lambda>d sel csum k p st st'.
        solutionSteps_ok tgt dust (st_steps st) \<longrightarrow> solutionSteps_ok tgt dust (st_steps st')"])
     (simp_all add: solutionSteps_ok_def)

text \<open>
  Claim C1, as stated, fails. The test compares with the sum of target and tolerance as a
  double computes it. For the values \<open>2 ^ 52 + 2\<close>, \<open>2 ^ 52 + 2\<close>, the target
  \<open>2 ^ 53 - 1\<close> and the tolerance 4, that sum rounds from \<open>2 ^ 53 + 3\<close> up to
  \<open>2 ^ 53 + 4\<close>, and the \<open>SOLUTION\<close> step is recorded with the sum \<open>2 ^ 53 + 4\<close>, which
  is neither the target nor at most target plus tolerance.
\<close>

theorem solution_step_beyond_exact_tolerance:
  "type (steps (generateScenario [4503599627370498, 4503599627370498] 9007199254740991 4) ! 2)
     = SOLUTION \<and>
   currentSum (steps (generateScenario [4503599627370498, 4503599627370498] 9007199254740991 4) ! 2)
     \<noteq> 9007199254740991 \<and>
   \<not> currentSum
       (steps (generateScenario [4503599627370498, 4503599627370498] 9007199254740991 4) ! 2)
     \<le> 9007199254740991 + 4"
  by code_simp

text \<open>
  Claim C1, amended. When target plus tolerance is at most \<open>2 ^ 53\<close> in absolute value,
  so that the code forms it exactly, every step of kind \<open>SOLUTION\<close> in the trace of a
  scenario produced by \<open>generateScenario\<close> has a \<open>currentSum\<close> that equals the target,
  or lies above the target and at most \<open>dustThreshold\<close> above it.
\<close>

theorem solution_step_within_tolerance:
  assumes "s \<in> set (steps (generateScenario utxoValues tgt dust))" and "type s = SOLUTION"
    and "\<bar>tgt + dust\<bar> \<le> 2 ^ 53"
  shows "currentSum s = tgt \<or> (tgt < currentSum s \<and> currentSum s \<le> tgt + dust)"
proof -
  have "solutionSteps_ok tgt dust (steps (generateScenario utxoValues tgt dust))"
    using backtrack_solutionSteps_ok
      [of tgt dust initial_state "prepareUtxos utxoValues" 0 "[]" 0 0 "[]"]
    by (simp add: generateScenario_def Let_def solutionSteps_ok_def initial_state_def)
  with assms(1,2)
  have "currentSum s = tgt \<or> (tgt < currentSum s \<and> currentSum s \<le> jsAdd tgt dust)"
    unfolding solutionSteps_ok_def by blast
  with assms(3) show ?thesis
    by (simp add: jsAdd_exact)
qed

theorem solution_step_within_tolerance_witness:
  "steps (generateScenario [60, 50, 25] 110 0) ! 2
     \<in> set (steps (generateScenario [60, 50, 25] 110 0)) \<and>
   type (steps (generateScenario [60, 50, 25] 110 0) ! 2) = SOLUTION \<and>
   \<bar>(110 :: int) + 0\<bar> \<le> 2 ^ 53 \<and>
   (currentSum (steps (generateScenario [60, 50, 25] 110 0) ! 2) = 110 \<or>
    (110 < currentSum (steps (generateScenario [60, 50, 25] 110 0) ! 2) \<and>
     currentSum (steps (generateScenario [60, 50, 25] 110 0) ! 2) \<le> 110 + 0))"
proof -
  have m: "steps (generateScenario [60, 50, 25] 110 0) ! 2
             \<in> set (steps (generateScenario [60, 50, 25] 110 0))"
    by (rule nth_mem) (simp add: example3_length)
  have t: "type (steps (generateScenario [60, 50, 25] 110 0) ! 2) = SOLUTION"
    by code_simp
  have b: "\<bar>(110 :: int) + 0\<bar> \<le> 2 ^ 53"
    by simp
  from solution_step_within_tolerance [OF m t b] m t b show ?thesis
    by blast
qed

lemma filter_upt_snoc:
  "filter (\<lambda>k. (p @ [b]) ! k) [0..<length (p @ [b])] =
     filter (\<lambda>k. p ! k) [0..<length p] @ (if b then [length p] else [])"
proof -
  have "filter (\<lambda>k. (p @ [b]) ! k) [0..<length p] = filter (\<lambda>k. p ! k) [0..<length p]"
    by (rule filter_cong) (simp_all add: nth_append)
  then show ?thesis by simp
qed

lemma pathSum_Nil [simp]: "pathSum us [] = 0"
  by (simp add: pathSum_def)

lemma pathSum_snoc:
  "pathSum us (p @ [b]) = pathSum us p + (if b then u_value (us ! length p) else 0)"
  unfolding pathSum_def filter_upt_snoc by simp

lemma selectionOf_Nil [simp]: "selectionOf [] = []"
  by (simp add: selectionOf_def)

lemma selectionOf_snoc:
  "selectionOf (p @ [b]) = selectionOf p @ (if b then [length p] else [])"
  unfolding selectionOf_def by (rule filter_upt_snoc)

lemma steps_generateScenario:
  "steps (generateScenario utxoValues tgt dust) =
     st_steps (recordStep (prepareUtxos utxoValues) COMPLETE 0 0 [] 0
       (if foundAnySolution (backtrack (prepareUtxos utxoValues) tgt dust 0 [] 0 0 [] initial_state)
        then ''Search Complete. Best solution returned.''
        else ''Search Complete. No solution found.'') []
       (backtrack (prepareUtxos utxoValues) tgt dust 0 [] 0 0 [] initial_state))"
  by (simp add: generateScenario_def Let_def)

lemma utxos_generateScenario [simp]:
  "utxos (generateScenario utxoValues tgt dust) = prepareUtxos utxoValues"
  by (simp add: generateScenario_def Let_def)

lemma st_steps_initial [simp]: "st_steps initial_state = []"
  by (simp add: initial_state_def)

section \<open>Inputs on which the sums are exact\<close>

lemma absTotal_drop_le: "absTotal (drop k us) \<le> absTotal us"
proof -
  have "absTotal us = absTotal (take k us) + absTotal (drop k us)"
    unfolding absTotal_def by (subst append_take_drop_id [of k us, symmetric]) (simp only: map_append sum_list_append)
  with absTotal_nonneg [of "take k us"] show ?thesis by simp
qed

lemma absTotal_prepareUtxos: "absTotal (prepareUtxos utxoValues) = sum_list (map abs utxoValues)"
proof -
  have "absTotal (prepareUtxos utxoValues) =
      sum_list (map abs (map u_value (prepareUtxos utxoValues)))"
    by (simp add: absTotal_def comp_def)
  also have "\<dots> = sum_mset (mset (map abs (sort_key (\<lambda>v. - v) utxoValues)))"
    by (simp only: values_prepareUtxos sum_mset_sum_list)
  also have "\<dots> = sum_mset (mset (map abs utxoValues))"
    by simp
  also have "\<dots> = sum_list (map abs utxoValues)"
    by (simp only: sum_mset_sum_list)
  finally show ?thesis .
qed

lemma exactArgs_root: "absTotal us \<le> 2 ^ 53 \<Longrightarrow> exactArgs us 0 0 []"
  by (simp add: exactArgs_def)

lemma exactArgs_include:
  assumes "exactArgs us csum k p" and "k < length us"
  shows "exactArgs us (jsAdd csum (u_value (us ! k))) (k + 1) (p @ [True])"
proof -
  let ?v = "u_value (us ! k)"
  from assms have c: "csum = pathSum us p" and l: "length p = k"
    and b: "\<bar>csum\<bar> + (\<bar>?v\<bar> + absTotal (drop (Suc k) us)) \<le> 2 ^ 53"
    unfolding exactArgs_def by (auto simp add: absTotal_drop)
  from b absTotal_nonneg [of "drop (Suc k) us"] have "\<bar>csum + ?v\<bar> \<le> 2 ^ 53"
    by simp
  then have e: "jsAdd csum ?v = csum + ?v"
    by (rule jsAdd_exact)
  from b have "\<bar>csum + ?v\<bar> + absTotal (drop (Suc k) us) \<le> 2 ^ 53"
    by simp
  with c l e assms(2) show ?thesis
    unfolding exactArgs_def by (auto simp add: pathSum_snoc)
qed

lemma exactArgs_exclude:
  assumes "exactArgs us csum k p" and "k < length us"
  shows "exactArgs us csum (k + 1) (p @ [False])"
proof -
  from assms have "\<bar>csum\<bar> + (\<bar>u_value (us ! k)\<bar> + absTotal (drop (Suc k) us)) \<le> 2 ^ 53"
    unfolding exactArgs_def by (auto simp add: absTotal_drop)
  then have "\<bar>csum\<bar> + absTotal (drop (Suc k) us) \<le> 2 ^ 53"
    by simp
  with assms show ?thesis
    unfolding exactArgs_def by (auto simp add: pathSum_snoc)
qed


section \<open>Sum invariant\<close>

lemma sumInvariant_snoc:
  "sumInvariant us (xs @ [s]) \<longleftrightarrow>
     sumInvariant us xs \<and> length (path s) \<le> length us \<and> currentSum s = pathSum us (path s)"
  by (auto simp add: sumInvariant_def)

lemma backtrack_sumInvariant:
  "exactArgs us csum k p \<and> sumInvariant us (st_steps st) \<longrightarrow>
   sumInvariant us (st_steps (backtrack us tgt dust d sel csum k p st))"
proof (rule backtrack_rule [where Q = "\<lambda>d sel csum k p st st'.
        exactArgs us csum k p \<and> sumInvariant us (st_steps st) \<longrightarrow>
        sumInvariant us (st_steps st')"], goal_cases)
  case (1 d sel csum k p st)
  show ?case by (auto simp add: sumInvariant_snoc exactArgs_def)
next
  case (2 d sel csum k p st)
  show ?case by (auto simp add: sumInvariant_snoc exactArgs_def)
next
  case (3 d sel csum k p st)
  show ?case by (auto simp add: sumInvariant_snoc exactArgs_def)
next
  case (4 d sel csum k p st)
  show ?case by (auto simp add: sumInvariant_snoc exactArgs_def)
next
  case (5 d sel csum k p st st2 st4)
  show ?case
  proof (intro impI, elim conjE)
    assume ex: "exactArgs us csum k p" and inv: "sumInvariant us (st_steps st)"
    note lt = \<open>k < length us\<close>
    have inc: "exactArgs us (jsAdd csum (u_value (us ! k))) (k + 1) (p @ [True])"
      using ex lt by (rule exactArgs_include)
    have exc: "exactArgs us csum (k + 1) (p @ [False])"
      using ex lt by (rule exactArgs_exclude)
    from inc have i: "jsAdd csum (u_value (us ! k)) = pathSum us (p @ [True])"
      "length (p @ [True]) \<le> length us"
      unfolding exactArgs_def by auto
    from exc have e: "csum = pathSum us (p @ [False])" "length (p @ [False]) \<le> length us"
      unfolding exactArgs_def by auto
    from inv i have "sumInvariant us (st_steps
        (recordStep us INCLUDE d (int k) (sel @ [k]) (jsAdd csum (u_value (us ! k)))
           (includeDescription k (u_value (us ! k))) (p @ [True]) st))"
      by (simp add: sumInvariant_snoc)
    with 5(5) inc have "sumInvariant us (st_steps st2)"
      by blast
    with e have "sumInvariant us (st_steps
        (recordStep us EXCLUDE d (int k) sel csum
           (excludeDescription k (u_value (us ! k))) (p @ [False]) st2))"
      by (simp add: sumInvariant_snoc)
    with 5(6) exc show "sumInvariant us (st_steps st4)"
      by blast
  qed
qed

text \<open>
  Claim C2, as stated, fails. \<open>currentSum\<close> is built by double additions. For the values
  \<open>2 ^ 52 + 2\<close> and \<open>2 ^ 52 + 1\<close> (target \<open>2 ^ 53 - 1\<close>) the \<open>INCLUDE\<close> step at path
  \<open>[true, true]\<close> records \<open>2 ^ 53 + 4\<close>, while the two values add up to \<open>2 ^ 53 + 3\<close>.
\<close>

theorem step_sum_is_rounded:
  "path (steps (generateScenario [4503599627370498, 4503599627370497] 9007199254740991 0) ! 1)
     = [True, True] \<and>
   currentSum (steps (generateScenario [4503599627370498, 4503599627370497] 9007199254740991 0) ! 1)
     = 9007199254740996 \<and>
   pathSum (utxos (generateScenario [4503599627370498, 4503599627370497] 9007199254740991 0))
     (path (steps (generateScenario [4503599627370498, 4503599627370497] 9007199254740991 0) ! 1))
     = 9007199254740995"
  by code_simp

text \<open>
  Claim C2, amended. When the absolute values of the input add up to at most \<open>2 ^ 53\<close>,
  then for every step of the trace of a scenario produced by \<open>generateScenario\<close>,
  \<open>currentSum\<close> is the sum of the sorted values at exactly the indices where the step's
  path holds \<open>true\<close>; the path is never longer than the list of values, so every such
  index names a value.
\<close>

theorem step_sum_is_path_sum:
  assumes "s \<in> set (steps (generateScenario utxoValues tgt dust))"
    and "sum_list (map abs utxoValues) \<le> 2 ^ 53"
  shows "length (path s) \<le> length (utxos (generateScenario utxoValues tgt dust)) \<and>
         currentSum s = pathSum (utxos (generateScenario utxoValues tgt dust)) (path s)"
proof -
  from assms(2) have "exactArgs (prepareUtxos utxoValues) 0 0 []"
    by (intro exactArgs_root) (simp add: absTotal_prepareUtxos)
  then have "sumInvariant (prepareUtxos utxoValues)
          (st_steps (backtrack (prepareUtxos utxoValues) tgt dust 0 [] 0 0 [] initial_state))"
    using backtrack_sumInvariant
      [of "prepareUtxos utxoValues" 0 0 "[]" initial_state tgt dust 0 "[]"]
    by (simp add: sumInvariant_def)
  then have "sumInvariant (prepareUtxos utxoValues) (steps (generateScenario utxoValues tgt dust))"
    by (simp add: steps_generateScenario sumInvariant_snoc)
  with assms(1) show ?thesis
    by (simp add: sumInvariant_def)
qed

theorem step_sum_is_path_sum_witness:
  "steps (generateScenario [60, 50, 25] 110 0) ! 1
     \<in> set (steps (generateScenario [60, 50, 25] 110 0)) \<and>
   sum_list (map abs [60, 50, 25 :: int]) \<le> 2 ^ 53 \<and>
   path (steps (generateScenario [60, 50, 25] 110 0) ! 1) = [True, True] \<and>
   currentSum (steps (generateScenario [60, 50, 25] 110 0) ! 1) = 110 \<and>
   length (path (steps (generateScenario [60, 50, 25] 110 0) ! 1))
     \<le> length (utxos (generateScenario [60, 50, 25] 110 0)) \<and>
   currentSum (steps (generateScenario [60, 50, 25] 110 0) ! 1) =
     pathSum (utxos (generateScenario [60, 50, 25] 110 0))
       (path (steps (generateScenario [60, 50, 25] 110 0) ! 1))"
proof -
  have m: "steps (generateScenario [60, 50, 25] 110 0) ! 1
             \<in> set (steps (generateScenario [60, 50, 25] 110 0))"
    by (rule nth_mem) (simp add: example3_length)
  have b: "sum_list (map abs [60, 50, 25 :: int]) \<le> 2 ^ 53"
    by simp
  have p: "path (steps (generateScenario [60, 50, 25] 110 0) ! 1) = [True, True]"
    by code_simp
  have v: "currentSum (steps (generateScenario [60, 50, 25] 110 0) ! 1) = 110"
    by code_simp
  from step_sum_is_path_sum [OF m b] m b p v show ?thesis
    by blast
qed

section \<open>Pruning and branching\<close>







section \<open>Outcome and best solution\<close>

lemma bestInv_recordStep:
  "bestInv st \<Longrightarrow> bestInv (recordStep us ty d idx sel csum desc p st)"
  by (auto simp add: bestInv_def bestIsLast_def nth_append)

lemma bestInv_solution:
  assumes "bestInv st" and "sel = selectionOf p"
  shows "bestInv (recordStep us SOLUTION d idx sel csum desc p
           (st\<lparr>foundAnySolution := True,
               st_bestSolutionIndices := Some sel,
               st_bestSolutionPath := Some p,
               st_candidates := st_candidates st @
                 [\<lparr>c_path = p, stepIndex = stepCounter st, c_value = csum\<rparr>]\<rparr>))"
  using assms by (simp add: bestInv_def bestIsLast_def recordStep_def)

lemma backtrack_bestInv:
  "sel = selectionOf p \<and> length p = k \<and> bestInv st \<longrightarrow>
   bestInv (backtrack us tgt dust d sel csum k p st)"
proof (rule backtrack_rule [where Q = "\<lambda>d sel csum k p st st'.
        sel = selectionOf p \<and> length p = k \<and> bestInv st \<longrightarrow> bestInv st'"], goal_cases)
  case (1 d sel csum k p st)
  show ?case by (simp add: bestInv_solution)
next
  case (2 d sel csum k p st)
  show ?case by (simp add: bestInv_recordStep)
next
  case (3 d sel csum k p st)
  show ?case by (simp add: bestInv_recordStep)
next
  case (4 d sel csum k p st)
  show ?case by (simp add: bestInv_recordStep)
next
  case (5 d sel csum k p st st2 st4)
  show ?case
  proof (intro impI, elim conjE)
    assume pre: "sel = selectionOf p" "length p = k" "bestInv st"
    from pre have "bestInv st2"
      using 5(5) by (simp add: bestInv_recordStep selectionOf_snoc)
    with pre show "bestInv st4"
      using 5(6) by (simp add: bestInv_recordStep selectionOf_snoc)
  qed
qed

lemma bestInv_initial: "bestInv initial_state"
  by (simp add: bestInv_def bestIsLast_def initial_state_def)

lemma best_solution_bestIsLast:
  "(outcome (generateScenario utxoValues tgt dust) = success \<longleftrightarrow>
      candidates (generateScenario utxoValues tgt dust) \<noteq> []) \<and>
   bestIsLast (steps (generateScenario utxoValues tgt dust))
     (candidates (generateScenario utxoValues tgt dust))
     (bestSolutionIndices (generateScenario utxoValues tgt dust))
     (bestSolutionPath (generateScenario utxoValues tgt dust))"
proof -
  let ?st1 = "backtrack (prepareUtxos utxoValues) tgt dust 0 [] 0 0 [] initial_state"
  let ?st2 = "recordStep (prepareUtxos utxoValues) COMPLETE 0 0 [] 0
       (if foundAnySolution ?st1
        then ''Search Complete. Best solution returned.''
        else ''Search Complete. No solution found.'') [] ?st1"
  have "bestInv ?st1"
    using backtrack_bestInv [of "[]" "[]" 0 initial_state "prepareUtxos utxoValues" tgt dust 0 0]
    by (simp add: bestInv_initial)
  then have "bestInv ?st2"
    by (rule bestInv_recordStep)
  then have inv: "(foundAnySolution ?st2 \<longleftrightarrow> st_candidates ?st2 \<noteq> []) \<and>
      bestIsLast (st_steps ?st2) (st_candidates ?st2) (st_bestSolutionIndices ?st2)
        (st_bestSolutionPath ?st2)"
    unfolding bestInv_def by blast
  have eqs: "steps (generateScenario utxoValues tgt dust) = st_steps ?st2"
    "candidates (generateScenario utxoValues tgt dust) = st_candidates ?st2"
    "bestSolutionIndices (generateScenario utxoValues tgt dust) = st_bestSolutionIndices ?st2"
    "bestSolutionPath (generateScenario utxoValues tgt dust) = st_bestSolutionPath ?st2"
    "outcome (generateScenario utxoValues tgt dust) =
       (if foundAnySolution ?st2 then success else failure)"
    by (simp_all add: generateScenario_def Let_def)
  have "(outcome (generateScenario utxoValues tgt dust) = success) = foundAnySolution ?st2"
    unfolding eqs by simp
  with inv show ?thesis
    unfolding eqs(1-4) by blast
qed


text \<open>
  Claim C4. For every scenario produced by \<open>generateScenario\<close>, the outcome is
  \<open>success\<close> exactly when the candidate list is not empty. When it is not empty, the best
  path is the path of the last candidate, and the best indices are that candidate's
  selection: the indices its path selects, which is also the selection stored in the
  \<open>SOLUTION\<close> step the candidate points to. When the list is empty, both are undefined.
\<close>

theorem best_solution_is_last_candidate:
  "(outcome (generateScenario utxoValues tgt dust) = success \<longleftrightarrow>
      candidates (generateScenario utxoValues tgt dust) \<noteq> []) \<and>
   (candidates (generateScenario utxoValues tgt dust) \<noteq> [] \<longrightarrow>
      bestSolutionPath (generateScenario utxoValues tgt dust) =
        Some (c_path (last (candidates (generateScenario utxoValues tgt dust)))) \<and>
      bestSolutionIndices (generateScenario utxoValues tgt dust) =
        Some (selectionOf (c_path (last (candidates (generateScenario utxoValues tgt dust))))) \<and>
      stepIndex (last (candidates (generateScenario utxoValues tgt dust)))
        < length (steps (generateScenario utxoValues tgt dust)) \<and>
      bestSolutionIndices (generateScenario utxoValues tgt dust) =
        Some (currentSelection (steps (generateScenario utxoValues tgt dust) !
                stepIndex (last (candidates (generateScenario utxoValues tgt dust)))))) \<and>
   (candidates (generateScenario utxoValues tgt dust) = [] \<longrightarrow>
      bestSolutionPath (generateScenario utxoValues tgt dust) = None \<and>
      bestSolutionIndices (generateScenario utxoValues tgt dust) = None)"
  using best_solution_bestIsLast [of utxoValues tgt dust]
  unfolding bestIsLast_def by (cases "candidates (generateScenario utxoValues tgt dust) = []") auto

theorem best_solution_is_last_candidate_witness:
  "candidates (generateScenario [60, 50, 25] 110 0) \<noteq> [] \<and>
   outcome (generateScenario [60, 50, 25] 110 0) = success \<and>
   bestSolutionPath (generateScenario [60, 50, 25] 110 0) = Some [True, True] \<and>
   bestSolutionIndices (generateScenario [60, 50, 25] 110 0) = Some [0, 1] \<and>
   candidates (generateScenario [10, 10] 25 0) = [] \<and>
   outcome (generateScenario [10, 10] 25 0) \<noteq> success \<and>
   bestSolutionPath (generateScenario [10, 10] 25 0) = None \<and>
   bestSolutionIndices (generateScenario [10, 10] 25 0) = None"
proof -
  have c3: "candidates (generateScenario [60, 50, 25] 110 0) \<noteq> []"
    by code_simp
  have l3: "c_path (last (candidates (generateScenario [60, 50, 25] 110 0))) = [True, True]"
    by code_simp
  have s3: "selectionOf [True, True] = [0, 1]"
    by code_simp
  have c2: "candidates (generateScenario [10, 10] 25 0) = []"
    by code_simp
  from best_solution_is_last_candidate [of "[60, 50, 25]" 110 0]
    best_solution_is_last_candidate [of "[10, 10]" 25 0] c3 l3 s3 c2
  show ?thesis
    by simp
qed

section \<open>Candidates and their steps\<close>

lemma candidateRecorded_snoc:
  "candidateRecorded xs c \<Longrightarrow> candidateRecorded (xs @ [s]) c"
  by (simp add: candidateRecorded_def nth_append)

lemma candInv_recordStep:
  assumes "candInv st"
  shows "candInv (recordStep us ty d idx sel csum desc p st)"
  using assms
  by (auto simp add: candInv_def nth_append less_Suc_eq candidateRecorded_snoc)

lemma candInv_solution:
  assumes "candInv st"
  shows "candInv (recordStep us SOLUTION d idx sel csum desc p
           (st\<lparr>foundAnySolution := True,
               st_bestSolutionIndices := Some sel,
               st_bestSolutionPath := Some p,
               st_candidates := st_candidates st @
                 [\<lparr>c_path = p, stepIndex = stepCounter st, c_value = csum\<rparr>]\<rparr>))"
proof -
  let ?c = "\<lparr>c_path = p, stepIndex = stepCounter st, c_value = csum\<rparr>"
  let ?st' = "st\<lparr>foundAnySolution := True,
               st_bestSolutionIndices := Some sel,
               st_bestSolutionPath := Some p,
               st_candidates := st_candidates st @ [?c]\<rparr>"
  let ?xs = "st_steps (recordStep us SOLUTION d idx sel csum desc p ?st')"
  from assms have n: "stepCounter st = length (st_steps st)"
    and ids: "\<forall>i<length (st_steps st). stepId (st_steps st ! i) = i"
    and old: "\<forall>c\<in>set (st_candidates st). candidateRecorded (st_steps st) c"
    unfolding candInv_def by blast+
  have new: "candidateRecorded ?xs ?c"
    using n by (simp add: candidateRecorded_def recordStep_def)
  have "\<forall>c\<in>set (st_candidates st). candidateRecorded ?xs c"
    using old by (simp add: recordStep_def candidateRecorded_snoc)
  with new have cs: "\<forall>c\<in>set (st_candidates st @ [?c]). candidateRecorded ?xs c"
    by simp
  have "\<forall>i<length ?xs. stepId (?xs ! i) = i"
    using ids n by (auto simp add: recordStep_def nth_append less_Suc_eq)
  with cs n show ?thesis
    unfolding candInv_def by (simp add: recordStep_def)
qed

lemma backtrack_candInv:
  "candInv st \<longrightarrow> candInv (backtrack us tgt dust d sel csum k p st)"
  by (rule backtrack_rule [where Q = "\<lambda>d sel csum k p st st'. candInv st \<longrightarrow> candInv st'"])
     (simp_all add: candInv_solution candInv_recordStep)

lemma candInv_initial: "candInv initial_state"
  by (simp add: candInv_def initial_state_def)

text \<open>
  Claim C6. For every scenario produced by \<open>generateScenario\<close> and every candidate
  \<open>c\<close> of its candidate list, the trace has a step at index \<open>stepIndex c\<close>; that step
  has the step id \<open>stepIndex c\<close>, the kind \<open>SOLUTION\<close>, the candidate's path, and the
  candidate's value as its sum.
\<close>

theorem candidate_points_to_solution_step:
  assumes "c \<in> set (candidates (generateScenario utxoValues tgt dust))"
  shows "stepIndex c < length (steps (generateScenario utxoValues tgt dust)) \<and>
         stepId (steps (generateScenario utxoValues tgt dust) ! stepIndex c) = stepIndex c \<and>
         type (steps (generateScenario utxoValues tgt dust) ! stepIndex c) = SOLUTION \<and>
         path (steps (generateScenario utxoValues tgt dust) ! stepIndex c) = c_path c \<and>
         currentSum (steps (generateScenario utxoValues tgt dust) ! stepIndex c) = c_value c"
proof -
  let ?st1 = "backtrack (prepareUtxos utxoValues) tgt dust 0 [] 0 0 [] initial_state"
  let ?st2 = "recordStep (prepareUtxos utxoValues) COMPLETE 0 0 [] 0
       (if foundAnySolution ?st1
        then ''Search Complete. Best solution returned.''
        else ''Search Complete. No solution found.'') [] ?st1"
  have "candInv ?st1"
    using backtrack_candInv [of initial_state "prepareUtxos utxoValues" tgt dust 0 "[]" 0 0 "[]"]
    by (simp add: candInv_initial)
  then have "candInv ?st2"
    by (rule candInv_recordStep)
  then have all: "\<forall>c\<in>set (st_candidates ?st2). candidateRecorded (st_steps ?st2) c"
    unfolding candInv_def by blast
  have eqs: "steps (generateScenario utxoValues tgt dust) = st_steps ?st2"
    "candidates (generateScenario utxoValues tgt dust) = st_candidates ?st2"
    by (simp_all add: generateScenario_def Let_def)
  from all assms have "candidateRecorded (steps (generateScenario utxoValues tgt dust)) c"
    unfolding eqs by blast
  then show ?thesis
    unfolding candidateRecorded_def .
qed

theorem candidate_points_to_solution_step_witness:
  "\<lparr>c_path = [True, True], stepIndex = 2, c_value = 110\<rparr>
     \<in> set (candidates (generateScenario [60, 50, 25] 110 0)) \<and>
   2 < length (steps (generateScenario [60, 50, 25] 110 0)) \<and>
   stepId (steps (generateScenario [60, 50, 25] 110 0) ! 2) = 2 \<and>
   type (steps (generateScenario [60, 50, 25] 110 0) ! 2) = SOLUTION \<and>
   path (steps (generateScenario [60, 50, 25] 110 0) ! 2) = [True, True] \<and>
   currentSum (steps (generateScenario [60, 50, 25] 110 0) ! 2) = 110"
proof -
  have m: "\<lparr>c_path = [True, True], stepIndex = 2, c_value = 110\<rparr>
             \<in> set (candidates (generateScenario [60, 50, 25] 110 0))"
    by code_simp
  from candidate_points_to_solution_step [OF m] m show ?thesis
    by simp
qed

section \<open>Termination and the final step\<close>

lemma length_prepareUtxos [simp]: "length (prepareUtxos utxoValues) = length utxoValues"
  by (simp add: prepareUtxos_def)

lemma noComplete_snoc: "noComplete (xs @ [s]) \<longleftrightarrow> noComplete xs \<and> type s \<noteq> COMPLETE"
  by (simp add: noComplete_def isComplete_def)

lemma backtrack_noComplete:
  "noComplete (st_steps st) \<longrightarrow>
   noComplete (st_steps (backtrack us tgt dust d sel csum k p st))"
  by (rule backtrack_rule [where Q = "\<lambda>d sel csum k p st st'.
        noComplete (st_steps st) \<longrightarrow> noComplete (st_steps st')"])
     (simp_all add: noComplete_snoc)

lemma three_pow_step:
  assumes "k < n"
  shows "(3::nat) * 2 ^ (n - k) = 3 * 2 ^ (n - (k + 1)) + 3 * 2 ^ (n - (k + 1))"
proof -
  from assms have "n - k = Suc (n - (k + 1))" by simp
  then show ?thesis by simp
qed

lemma backtrack_length_bounds:
  "length (st_steps st) < length (st_steps (backtrack us tgt dust d sel csum k p st)) \<and>
   length (st_steps (backtrack us tgt dust d sel csum k p st)) + 2
     \<le> length (st_steps st) + 3 * 2 ^ (length us - k)"
proof (rule backtrack_rule [where Q = "\<lambda>d sel csum k p st st'.
        length (st_steps st) < length (st_steps st') \<and>
        length (st_steps st') + 2 \<le> length (st_steps st) + 3 * 2 ^ (length us - k)"],
    goal_cases)
  case (1 d sel csum k p st)
  have "(1::nat) \<le> 2 ^ (length us - k)" by simp
  then show ?case by simp
next
  case (2 d sel csum k p st)
  have "(1::nat) \<le> 2 ^ (length us - k)" by simp
  then show ?case by simp
next
  case (3 d sel csum k p st)
  have "(1::nat) \<le> 2 ^ (length us - k)" by simp
  then show ?case by simp
next
  case (4 d sel csum k p st)
  have "(1::nat) \<le> 2 ^ (length us - k)" by simp
  then show ?case by simp
next
  case (5 d sel csum k p st st2 st4)
  from 5(5,6) three_pow_step [OF 5(2)] show ?case
    by simp
qed

text \<open>
  Claim C9. \<open>backtrack\<close> is defined by well-founded recursion on the number of values
  not yet considered, so \<open>generateScenario\<close> returns on every input, in particular on
  every list of non-negative values with non-negative target and tolerance. The trace it
  returns ends with a \<open>COMPLETE\<close> step, which is the only \<open>COMPLETE\<close> step of the
  trace, and the trace of \<open>n\<close> values has fewer than \<open>3 * 2 ^ n\<close> steps.
\<close>

theorem trace_ends_with_single_complete:
  "steps (generateScenario utxoValues tgt dust) \<noteq> [] \<and>
   type (last (steps (generateScenario utxoValues tgt dust))) = COMPLETE \<and>
   filter isComplete (steps (generateScenario utxoValues tgt dust)) =
     [last (steps (generateScenario utxoValues tgt dust))] \<and>
   length (steps (generateScenario utxoValues tgt dust)) < 3 * 2 ^ length utxoValues"
proof -
  let ?st1 = "backtrack (prepareUtxos utxoValues) tgt dust 0 [] 0 0 [] initial_state"
  have nc: "noComplete (st_steps ?st1)"
    using backtrack_noComplete [of initial_state "prepareUtxos utxoValues" tgt dust 0 "[]" 0 0 "[]"]
    by (simp add: noComplete_def)
  have "length (st_steps ?st1) + 2 \<le> 3 * 2 ^ length utxoValues"
    using backtrack_length_bounds [of initial_state "prepareUtxos utxoValues" tgt dust 0 "[]" 0 0 "[]"]
    by simp
  with nc show ?thesis
    unfolding steps_generateScenario
    by (simp add: noComplete_def isComplete_def)
qed

section \<open>Negative inputs\<close>

text \<open>
  Claim C10, as stated, fails: \<open>generateScenario\<close> has no validation and no error
  result. On the negative value \<open>-5\<close> with target 3 it searches, records a
  \<open>PRUNE_SUM\<close> step at the root and the \<open>COMPLETE\<close> step, and returns a scenario.
\<close>

theorem negative_value_is_not_rejected:
  "(- 5 :: int) < 0 \<and>
   map kindAndPath (steps (generateScenario [- 5] 3 0)) = [(PRUNE_SUM, []), (COMPLETE, [])] \<and>
   outcome (generateScenario [- 5] 3 0) = failure"
  by code_simp

text \<open>
  Claim C10, amended. The search engine validates nothing and signals no error, neither
  before nor during the search: on every input that contains a negative value, or has a
  negative target or tolerance, \<open>generateScenario\<close> runs the search and returns a
  scenario whose trace holds at least one search step and ends with the \<open>COMPLETE\<close>
  step, the only \<open>COMPLETE\<close> step of the trace.
\<close>

theorem negative_input_is_searched:
  assumes "(\<exists>v\<in>set utxoValues. v < 0) \<or> tgt < 0 \<or> dust < 0"
  shows "2 \<le> length (steps (generateScenario utxoValues tgt dust)) \<and>
         type (hd (steps (generateScenario utxoValues tgt dust))) \<noteq> COMPLETE \<and>
         type (last (steps (generateScenario utxoValues tgt dust))) = COMPLETE \<and>
         filter isComplete (steps (generateScenario utxoValues tgt dust)) =
           [last (steps (generateScenario utxoValues tgt dust))]"
proof -
  let ?st1 = "backtrack (prepareUtxos utxoValues) tgt dust 0 [] 0 0 [] initial_state"
  have nc: "noComplete (st_steps ?st1)"
    using backtrack_noComplete [of initial_state "prepareUtxos utxoValues" tgt dust 0 "[]" 0 0 "[]"]
    by (simp add: noComplete_def)
  have len: "0 < length (st_steps ?st1)"
    using backtrack_length_bounds [of initial_state "prepareUtxos utxoValues" tgt dust 0 "[]" 0 0 "[]"]
    by simp
  then obtain x xs where xs: "st_steps ?st1 = x # xs"
    by (cases "st_steps ?st1") auto
  with nc have "type x \<noteq> COMPLETE"
    by (simp add: noComplete_def isComplete_def split: if_splits)
  with xs nc show ?thesis
    unfolding steps_generateScenario by (simp add: noComplete_def isComplete_def)
qed

theorem negative_input_is_searched_witness:
  "(- 5 :: int) \<in> set [- 5] \<and> (- 5 :: int) < 0 \<and>
   2 \<le> length (steps (generateScenario [- 5] 3 0)) \<and>
   type (hd (steps (generateScenario [- 5] 3 0))) \<noteq> COMPLETE \<and>
   type (last (steps (generateScenario [- 5] 3 0))) = COMPLETE"
proof -
  have h: "(\<exists>v\<in>set [- 5 :: int]. v < 0) \<or> (3 :: int) < 0 \<or> (0 :: int) < 0"
    by simp
  from negative_input_is_searched [OF h] show ?thesis
    by simp
qed

section \<open>The third example of the specification\<close>

text \<open>
  Claim C5, as stated, fails: the trace for the values 60, 50, 25 and the target 110 has
  no \<open>SOLUTION\<close> step at path \<open>[true, true, false]\<close>. The solution test runs on entry
  to a node, so the candidate is found at path \<open>[true, true]\<close>, before the third value
  is considered.
\<close>

theorem example3_no_solution_at_depth_three:
  "(SOLUTION, [True, True, False])
     \<notin> set (map kindAndPath (steps (generateScenario [60, 50, 25] 110 0)))"
  by code_simp

text \<open>
  Claim C5, amended. For the values 60, 50, 25 and the target 110 (tolerance 0) the trace
  holds one \<open>SOLUTION\<close> step, at path \<open>[true, true]\<close> (60 + 50 = 110), recorded as the
  only candidate; the search then explores the subtrees at \<open>[true, false]\<close> and at
  \<open>[false]\<close>, both pruned at once, before the final \<open>COMPLETE\<close> step.
\<close>

theorem example3_trace:
  "map kindAndPath (steps (generateScenario [60, 50, 25] 110 0)) =
     [(INCLUDE, [True]), (INCLUDE, [True, True]), (SOLUTION, [True, True]),
      (EXCLUDE, [True, False]), (PRUNE_SUM, [True, False]),
      (EXCLUDE, [False]), (PRUNE_SUM, [False]), (COMPLETE, [])] \<and>
   candidates (generateScenario [60, 50, 25] 110 0) =
     [\<lparr>c_path = [True, True], stepIndex = 2, c_value = 110\<rparr>] \<and>
   outcome (generateScenario [60, 50, 25] 110 0) = success"
  by code_simp

section \<open>Lineage classification of the replay\<close>

lemma isPrefix_iff: "isPrefix p q \<longleftrightarrow> prefix p q"
proof (cases "length p \<le> length q")
  case True
  have "(\<forall>i<length p. p ! i = q ! i) \<longleftrightarrow> p = take (length p) q"
    using True by (auto simp add: list_eq_iff_nth_eq)
  also have "\<dots> \<longleftrightarrow> prefix p q"
    by (metis take_is_prefix prefix_def append_eq_conv_conj)
  finally have "(\<forall>i\<in>{0..<length p}. p ! i = q ! i) \<longleftrightarrow> prefix p q"
    by (simp add: Ball_def)
  with True show ?thesis
    by (simp add: isPrefix_def list_all_iff)
next
  case False
  then show ?thesis
    by (auto simp add: isPrefix_def dest: prefix_length_le)
qed

lemma candidateLoop_iff:
  "candidateLoop p cs =
     (if \<exists>c\<in>set cs. length p \<le> length (c_path c) \<and> prefix p (c_path c) then candidate
      else none)"
  by (induction cs) (auto simp add: isPrefix_iff)

text \<open>
  Claim C7. \<open>getPathStatus\<close> classifies a node path \<open>p\<close> at cursor \<open>i\<close> as \<open>best\<close>
  exactly when a best-solution path is given, \<open>p\<close> is not longer than it and is a prefix
  of it; otherwise as \<open>candidate\<close> exactly when some candidate recorded at a step index
  of at most \<open>i\<close> has a path that \<open>p\<close> is not longer than and is a prefix of; otherwise
  as \<open>none\<close>.
\<close>

theorem lineage_classification:
  "getPathStatus bestPath cands i p =
     (if \<exists>b. bestPath = Some b \<and> length p \<le> length b \<and> prefix p b then best
      else if \<exists>c\<in>set cands. stepIndex c \<le> i \<and> length p \<le> length (c_path c) \<and>
                prefix p (c_path c)
      then candidate
      else none)"
  by (cases bestPath) (auto simp add: getPathStatus_def candidateLoop_iff isPrefix_iff)

theorem lineage_classification_witness:
  "getPathStatus (Some [True, True]) [] 0 [True] = best \<and>
   getPathStatus None [\<lparr>c_path = [True, True], stepIndex = 2, c_value = 110\<rparr>] 2 [True]
     = candidate \<and>
   getPathStatus None [\<lparr>c_path = [True, True], stepIndex = 2, c_value = 110\<rparr>] 1 [True]
     = none"
  using lineage_classification [of "Some [True, True]" "[]" 0 "[True]"]
    lineage_classification
      [of None "[\<lparr>c_path = [True, True], stepIndex = 2, c_value = 110\<rparr>]" 2 "[True]"]
    lineage_classification
      [of None "[\<lparr>c_path = [True, True], stepIndex = 2, c_value = 110\<rparr>]" 1 "[True]"]
  by simp

section \<open>The replay seen from a single node\<close>

lemma getPathId_Cons: "getPathId (b # p) = (if b then CHR ''1'' else CHR ''0'') # getPathId p"
  by (simp add: getPathId_def)

lemma getPathId_inj [simp]: "getPathId p = getPathId q \<longleftrightarrow> p = q"
proof (induction p arbitrary: q)
  case Nil
  show ?case by (cases q) (simp_all add: getPathId_def)
next
  case (Cons b p)
  show ?case
  proof (cases q)
    case Nil
    then show ?thesis by (simp add: getPathId_def)
  next
    case (Cons c q')
    with Cons.IH [of q'] show ?thesis
      by (auto simp add: getPathId_Cons)
  qed
qed

lemma tracePath_keeps:
  "nodeMap (getPathId p) = Some n \<Longrightarrow> tracePath q rest nodeMap (getPathId p) = Some n"
proof (induction rest arbitrary: q nodeMap)
  case Nil
  then show ?case by simp
next
  case (Cons d rest)
  show ?case
    by (simp only: tracePath.simps, rule Cons.IH) (use Cons.prems in auto)
qed

lemma tracePath_elsewhere:
  "(\<And>r. r \<noteq> [] \<Longrightarrow> prefix r rest \<Longrightarrow> p \<noteq> q @ r) \<Longrightarrow>
   tracePath q rest nodeMap (getPathId p) = nodeMap (getPathId p)"
proof (induction rest arbitrary: q nodeMap)
  case Nil
  then show ?case by simp
next
  case (Cons d rest)
  have ne: "p \<noteq> q @ [d]"
    using Cons.prems [of "[d]"] by simp
  have "tracePath (q @ [d]) rest
          (if nodeMap (getPathId (q @ [d])) = None then
             nodeMap(getPathId (q @ [d]) \<mapsto>
               \<lparr>n_id = getPathId (q @ [d]), n_path = q @ [d], status = visited, n_type = None\<rparr>)
           else nodeMap) (getPathId p) =
        (if nodeMap (getPathId (q @ [d])) = None then
             nodeMap(getPathId (q @ [d]) \<mapsto>
               \<lparr>n_id = getPathId (q @ [d]), n_path = q @ [d], status = visited, n_type = None\<rparr>)
           else nodeMap) (getPathId p)"
  proof (rule Cons.IH)
    fix r :: "bool list"
    assume "r \<noteq> []" and "prefix r rest"
    then show "p \<noteq> (q @ [d]) @ r"
      using Cons.prems [of "d # r"] by simp
  qed
  with ne show ?case by simp
qed

lemma tracePath_creates:
  "r \<noteq> [] \<Longrightarrow> prefix r rest \<Longrightarrow> nodeMap (getPathId (q @ r)) = None \<Longrightarrow>
   tracePath q rest nodeMap (getPathId (q @ r)) =
     Some \<lparr>n_id = getPathId (q @ r), n_path = q @ r, status = visited, n_type = None\<rparr>"
proof (induction rest arbitrary: q r nodeMap)
  case Nil
  then show ?case by simp
next
  case (Cons d rest)
  from Cons.prems(1,2) obtain r' where r: "r = d # r'" and pre: "prefix r' rest"
    by (cases r) auto
  show ?case
  proof (cases "r' = []")
    case True
    with r Cons.prems(3) show ?thesis
      by (simp add: tracePath_keeps)
  next
    case False
    have "tracePath (q @ [d]) rest
            (nodeMap(getPathId (q @ [d]) \<mapsto>
               \<lparr>n_id = getPathId (q @ [d]), n_path = q @ [d], status = visited, n_type = None\<rparr>))
            (getPathId ((q @ [d]) @ r')) =
          Some \<lparr>n_id = getPathId ((q @ [d]) @ r'), n_path = (q @ [d]) @ r',
                 status = visited, n_type = None\<rparr>"
      by (rule Cons.IH [OF False pre]) (use False r Cons.prems(3) in simp)
    moreover have "tracePath (q @ [d]) rest nodeMap (getPathId ((q @ [d]) @ r')) =
          Some \<lparr>n_id = getPathId ((q @ [d]) @ r'), n_path = (q @ [d]) @ r',
                 status = visited, n_type = None\<rparr>"
      by (rule Cons.IH [OF False pre]) (use r Cons.prems(3) in simp)
    ultimately show ?thesis
      using r by simp
  qed
qed

lemma tracePath_status:
  "statusOf (tracePath [] rest nodeMap) p =
     (case statusOf nodeMap p of
        None \<Rightarrow> if p \<noteq> [] \<and> prefix p rest then Some visited else None
      | Some old \<Rightarrow> Some old)"
proof (cases "nodeMap (getPathId p)")
  case (Some n)
  then show ?thesis
    by (simp add: statusOf_def tracePath_keeps)
next
  case None
  show ?thesis
  proof (cases "p \<noteq> [] \<and> prefix p rest")
    case True
    with None tracePath_creates [of p rest nodeMap "[]"] show ?thesis
      by (simp add: statusOf_def)
  next
    case False
    then have "tracePath [] rest nodeMap (getPathId p) = nodeMap (getPathId p)"
      by (intro tracePath_elsewhere) auto
    with None False show ?thesis
      by (auto simp add: statusOf_def)
  qed
qed

lemma status_touchNode: "status (touchNode c ty node) = touchStatus c ty (status node)"
  by (simp add: touchNode_def touchStatus_def Let_def)

lemma replayStep_status:
  "statusOf (replayStep cur i s nodeMap) p = nodeStep (i = cur) p s (statusOf nodeMap p)"
proof (cases "path s = p")
  case True
  show ?thesis
  proof (cases "tracePath [] (path s) nodeMap (getPathId (path s))")
    case None
    then have "statusOf (replayStep cur i s nodeMap) p = None"
      using True by (simp add: replayStep_def statusOf_def)
    moreover from None True have "statusOf (tracePath [] (path s) nodeMap) p = None"
      by (simp add: statusOf_def)
    ultimately show ?thesis
      using True tracePath_status [of "path s" nodeMap p]
      by (auto simp add: nodeStep_def Let_def split: option.splits if_splits)
  next
    case (Some n)
    then have "statusOf (replayStep cur i s nodeMap) p =
        Some (touchStatus (i = cur) (type s) (status n))"
      using True by (simp add: replayStep_def statusOf_def status_touchNode)
    moreover from Some True have "statusOf (tracePath [] (path s) nodeMap) p = Some (status n)"
      by (simp add: statusOf_def)
    ultimately show ?thesis
      using True tracePath_status [of "path s" nodeMap p]
      by (auto simp add: nodeStep_def Let_def split: option.splits if_splits)
  qed
next
  case False
  then have "statusOf (replayStep cur i s nodeMap) p = statusOf (tracePath [] (path s) nodeMap) p"
    by (simp add: replayStep_def statusOf_def split: option.splits)
  with False show ?thesis
    by (simp add: tracePath_status nodeStep_def Let_def)
qed

lemma replayLoop_status:
  assumes "i \<le> cur" and "cur < length xs"
  shows "\<exists>m. replayLoop xs cur i nodeMap = Inr m \<and>
           statusOf m p =
             nodeStep True p (xs ! cur)
               (fold (nodeStep False p) (drop i (take cur xs)) (statusOf nodeMap p))"
  using assms
proof (induction "cur - i" arbitrary: i nodeMap)
  case 0
  then have i: "i = cur" by simp
  have "replayLoop xs cur cur nodeMap = Inr (replayStep cur cur (xs ! cur) nodeMap)"
    using \<open>cur < length xs\<close>
    by (subst replayLoop.simps, simp, subst replayLoop.simps, simp)
  then show ?case
    using i by (simp add: replayStep_status)
next
  case (Suc n)
  then have lt: "i < cur" by simp
  with Suc.prems have il: "i < length xs" by simp
  from lt il have unfold: "replayLoop xs cur i nodeMap =
      replayLoop xs cur (i + 1) (replayStep cur i (xs ! i) nodeMap)"
    by (subst replayLoop.simps) simp
  from Suc.hyps(2) lt have "n = cur - (i + 1)" by simp
  from Suc.hyps(1) [OF this, of "replayStep cur i (xs ! i) nodeMap"] lt Suc.prems(2)
  obtain m where m: "replayLoop xs cur (i + 1) (replayStep cur i (xs ! i) nodeMap) = Inr m"
    and st: "statusOf m p =
      nodeStep True p (xs ! cur)
        (fold (nodeStep False p) (drop (i + 1) (take cur xs))
           (statusOf (replayStep cur i (xs ! i) nodeMap) p))"
    by auto
  from lt il have "drop i (take cur xs) = xs ! i # drop (i + 1) (take cur xs)"
    by (simp add: Cons_nth_drop_Suc [symmetric])
  with st lt have "statusOf m p =
      nodeStep True p (xs ! cur)
        (fold (nodeStep False p) (drop i (take cur xs)) (statusOf nodeMap p))"
    by (simp add: replayStep_status)
  with m unfold show ?case by simp
qed

lemma statusOf_root: "statusOf [getPathId [] \<mapsto> rootNode] p = initialStatus p"
  by (simp add: statusOf_def initialStatus_def rootNode_def)

lemma nodeStatusAt_eq:
  assumes "cur < length xs"
  shows "nodeStatusAt xs cur p =
           nodeStep True p (xs ! cur) (fold (nodeStep False p) (take cur xs) (initialStatus p))"
proof -
  from replayLoop_status [of 0 cur xs "[getPathId [] \<mapsto> rootNode]" p] assms
  obtain m where "buildTree xs cur = Inr m"
    and "statusOf m p =
           nodeStep True p (xs ! cur) (fold (nodeStep False p) (take cur xs) (initialStatus p))"
    by (auto simp add: buildTree_def statusOf_root)
  then show ?thesis
    by (simp add: nodeStatusAt_def statusOf_def)
qed

lemma nodeStatusAt_out_of_range:
  assumes "length xs \<le> cur"
  shows "buildTree xs cur = Inl TypeError"
proof -
  have "i \<le> length xs \<Longrightarrow> replayLoop xs cur i nodeMap = Inl TypeError" for i nodeMap
  proof (induction "length xs - i" arbitrary: i nodeMap)
    case 0
    with assms show ?case
      by (subst replayLoop.simps) simp
  next
    case (Suc n)
    then have "n = length xs - (i + 1)" and "i + 1 \<le> length xs" and "i < length xs"
      by simp_all
    from Suc.hyps(1) [OF this(1,2)] this(3) assms show ?case
      by (subst replayLoop.simps) simp
  qed
  then show ?thesis
    by (simp add: buildTree_def)
qed

lemma nodeStep_exists: "st \<noteq> None \<Longrightarrow> nodeStep c p s st \<noteq> None"
  by (auto simp add: nodeStep_def Let_def)

lemma fold_nodeStep_exists: "st \<noteq> None \<Longrightarrow> fold (nodeStep c p) ys st \<noteq> None"
proof (induction ys arbitrary: st)
  case Nil
  then show ?case by simp
next
  case (Cons s ys)
  from Cons.prems have "nodeStep c p s st \<noteq> None"
    by (rule nodeStep_exists)
  then have "fold (nodeStep c p) ys (nodeStep c p s st) \<noteq> None"
    by (rule Cons.IH)
  then show ?case by simp
qed

lemma nodeStep_other: "path s \<noteq> p \<Longrightarrow> st \<noteq> None \<Longrightarrow> nodeStep c p s st = st"
  by (auto simp add: nodeStep_def Let_def)

lemma fold_nodeStep_other:
  "list_all (\<lambda>t. path t \<noteq> p) ys \<Longrightarrow> st \<noteq> None \<Longrightarrow> fold (nodeStep c p) ys st = st"
  by (induction ys arbitrary: st) (simp_all add: nodeStep_other)

lemma nodeStep_terminal:
  "path s = p \<Longrightarrow> isTerminal (type s) \<Longrightarrow> p = [] \<longrightarrow> st \<noteq> None \<Longrightarrow>
   nodeStep c p s st = Some (terminalStatus (type s))"
  by (auto simp add: nodeStep_def Let_def isTerminal_def terminalStatus_def touchStatus_def
      split: option.splits)

lemma nodeStep_origin:
  assumes "nodeStep c p s st = Some x" and "x = pruned \<or> x = solution" and "st \<noteq> Some x"
  shows "path s = p \<and> isTerminal (type s) \<and> terminalStatus (type s) = x"
  using assms
  by (auto simp add: nodeStep_def Let_def isTerminal_def terminalStatus_def touchStatus_def
      split: option.splits if_splits)

lemma fold_nodeStep_origin:
  assumes "fold (nodeStep c p) ys st = Some x" and "x = pruned \<or> x = solution"
    and "st \<noteq> Some x"
  shows "\<exists>k<length ys. path (ys ! k) = p \<and> isTerminal (type (ys ! k)) \<and>
           terminalStatus (type (ys ! k)) = x"
  using assms
proof (induction ys arbitrary: st rule: rev_induct)
  case Nil
  then show ?case by simp
next
  case (snoc s ys)
  show ?case
  proof (cases "fold (nodeStep c p) ys st = Some x")
    case True
    from snoc.IH [OF True snoc.prems(2,3)] obtain k where "k < length ys"
      and "path (ys ! k) = p \<and> isTerminal (type (ys ! k)) \<and> terminalStatus (type (ys ! k)) = x"
      by blast
    then show ?thesis
      by (intro exI [of _ k]) (simp add: nth_append)
  next
    case False
    from snoc.prems(1) have "nodeStep c p s (fold (nodeStep c p) ys st) = Some x"
      by simp
    from nodeStep_origin [OF this snoc.prems(2) False] show ?thesis
      by (intro exI [of _ "length ys"]) simp
  qed
qed

lemma terminalsFinal_append:
  "terminalsFinal (xs @ ys) \<longleftrightarrow>
     terminalsFinal xs \<and> terminalsFinal ys \<and>
     list_all (\<lambda>s. isTerminal (type s) \<longrightarrow> list_all (\<lambda>t. path t \<noteq> path s) ys) xs"
  by (induction xs) auto

lemma terminalsFinal_nth:
  "terminalsFinal es \<Longrightarrow> a < b \<Longrightarrow> b < length es \<Longrightarrow> isTerminal (type (es ! a)) \<Longrightarrow>
   path (es ! b) \<noteq> path (es ! a)"
proof (induction es arbitrary: a b)
  case Nil
  then show ?case by simp
next
  case (Cons s ss)
  from Cons.prems(2) obtain b' where b: "b = Suc b'"
    by (cases b) auto
  show ?case
  proof (cases a)
    case 0
    with Cons.prems b show ?thesis
      by (simp add: list_all_length)
  next
    case (Suc a')
    with Cons.prems b Cons.IH [of a' b'] show ?thesis
      by simp
  qed
qed

lemma branches_differ:
  "prefix (p @ [True]) a \<Longrightarrow> prefix (p @ [False]) b \<Longrightarrow> a \<noteq> b"
  by (auto simp add: prefix_def)

lemma emitsBelow_leaf:
  "ty \<noteq> COMPLETE \<Longrightarrow> st_steps st' = st_steps st \<Longrightarrow>
   emitsBelow p st (recordStep us ty d idx sel csum desc p st')"
  unfolding emitsBelow_def
  by (rule exI [of _ "[\<lparr>stepId = stepCounter st', type = ty, depth = d, utxoIndex = idx,
         currentSelection = sel, currentSum = csum, description = desc,
         remainingValue = getRemainingSum us (nat (idx + 1)), path = p\<rparr>]"]) simp

lemma emitsBelow_branch:
  assumes l: "emitsBelow (p @ [True])
               (recordStep us INCLUDE d idx sel csum desc (p @ [True]) st) st2"
    and r: "emitsBelow (p @ [False])
              (recordStep us EXCLUDE d' idx' sel' csum' desc' (p @ [False]) st2) st4"
  shows "emitsBelow p st st4"
proof -
  let ?inc = "\<lparr>stepId = stepCounter st, type = INCLUDE, depth = d, utxoIndex = idx,
         currentSelection = sel, currentSum = csum, description = desc,
         remainingValue = getRemainingSum us (nat (idx + 1)), path = p @ [True]\<rparr>"
  let ?exc = "\<lparr>stepId = stepCounter st2, type = EXCLUDE, depth = d', utxoIndex = idx',
         currentSelection = sel', currentSum = csum', description = desc',
         remainingValue = getRemainingSum us (nat (idx' + 1)), path = p @ [False]\<rparr>"
  from l obtain es1 where s2: "st_steps st2 = st_steps st @ ?inc # es1"
    and p1: "list_all (\<lambda>t. prefix (p @ [True]) (path t)) es1"
    and c1: "list_all (\<lambda>t. type t \<noteq> COMPLETE) es1" and t1: "terminalsFinal es1"
    unfolding emitsBelow_def by auto
  from r obtain es2 where s4: "st_steps st4 = st_steps st2 @ ?exc # es2"
    and p2: "list_all (\<lambda>t. prefix (p @ [False]) (path t)) es2"
    and c2: "list_all (\<lambda>t. type t \<noteq> COMPLETE) es2" and t2: "terminalsFinal es2"
    unfolding emitsBelow_def by auto
  let ?es = "?inc # es1 @ ?exc # es2"
  have steps: "st_steps st4 = st_steps st @ ?es"
    using s2 s4 by simp
  have below: "list_all (\<lambda>t. prefix p (path t)) ?es"
    using p1 p2 by (auto simp add: list_all_iff dest: append_prefixD)
  have nocomplete: "list_all (\<lambda>t. type t \<noteq> COMPLETE) ?es"
    using c1 c2 by simp
  have cross: "list_all (\<lambda>s. isTerminal (type s) \<longrightarrow>
                 list_all (\<lambda>t. path t \<noteq> path s) (?exc # es2)) es1"
    unfolding list_all_iff
  proof (intro ballI impI)
    fix s t
    assume "s \<in> set es1" and "t \<in> set (?exc # es2)"
    with p1 p2 have "prefix (p @ [True]) (path s)" and "prefix (p @ [False]) (path t)"
      by (auto simp add: list_all_iff)
    then show "path t \<noteq> path s"
      using branches_differ [of p "path s" "path t"] by auto
  qed
  have "terminalsFinal (?exc # es2)"
    using t2 by (simp add: isTerminal_def)
  with t1 cross have "terminalsFinal (es1 @ ?exc # es2)"
    by (simp add: terminalsFinal_append)
  then have "terminalsFinal ?es"
    by (simp add: isTerminal_def)
  with steps below nocomplete show ?thesis
    unfolding emitsBelow_def by blast
qed

lemma backtrack_emitsBelow:
  "emitsBelow p st (backtrack us tgt dust d sel csum k p st)"
  by (rule backtrack_rule [where Q = "\<lambda>d sel csum k p st st'. emitsBelow p st st'"])
     (simp_all add: emitsBelow_leaf emitsBelow_branch)

section \<open>Persistence of terminal classifications\<close>

lemma trace_structure:
  "\<exists>es c. steps (generateScenario utxoValues tgt dust) = es @ [c] \<and> terminalsFinal es \<and>
      type c = COMPLETE \<and> path c = []"
proof -
  let ?st1 = "backtrack (prepareUtxos utxoValues) tgt dust 0 [] 0 0 [] initial_state"
  from backtrack_emitsBelow [of "[]" initial_state "prepareUtxos utxoValues" tgt dust 0 "[]" 0 0]
  obtain es where "st_steps ?st1 = es" and "terminalsFinal es"
    unfolding emitsBelow_def by auto
  then show ?thesis
    unfolding steps_generateScenario by simp
qed

lemma terminal_status_persists_on:
  assumes xs: "xs = es @ [c]" and tf: "terminalsFinal es"
    and c: "type c = COMPLETE" "path c = []"
    and ij: "i < j" "j < length xs" and x: "x = pruned \<or> x = solution"
    and at_i: "nodeStatusAt xs i p = Some x"
  shows "nodeStatusAt xs j p = Some (if p = [] \<and> Suc j = length xs then active else x)"
proof -
  let ?f = "nodeStep False p"
  from ij have i_lt: "i < length xs" by simp
  from x have init_ne: "initialStatus p \<noteq> Some x"
    by (auto simp add: initialStatus_def)
  have "\<exists>k\<le>i. path (xs ! k) = p \<and> isTerminal (type (xs ! k)) \<and>
          terminalStatus (type (xs ! k)) = x"
  proof (cases "fold ?f (take i xs) (initialStatus p) = Some x")
    case True
    from fold_nodeStep_origin [OF True x init_ne] obtain k where "k < length (take i xs)"
      and "path (take i xs ! k) = p \<and> isTerminal (type (take i xs ! k)) \<and>
           terminalStatus (type (take i xs ! k)) = x"
      by blast
    then show ?thesis
      by (intro exI [of _ k]) simp
  next
    case False
    from at_i nodeStatusAt_eq [OF i_lt, of p]
    have "nodeStep True p (xs ! i) (fold ?f (take i xs) (initialStatus p)) = Some x"
      by simp
    from nodeStep_origin [OF this x False] show ?thesis
      by (intro exI [of _ i]) simp
  qed
  then obtain k where k: "k \<le> i" "path (xs ! k) = p" "isTerminal (type (xs ! k))"
    "terminalStatus (type (xs ! k)) = x"
    by blast
  from k(1) ij xs have kes: "k < length es" and kj: "k < j" and jes: "j \<le> length es"
    by simp_all
  from kes xs have xk: "xs ! k = es ! k"
    by (simp add: nth_append)
  have later: "path (es ! b) \<noteq> p" if "k < b" and "b < length es" for b
    using terminalsFinal_nth [OF tf that] k(2,3) xk by simp
  have exists0: "p = [] \<longrightarrow> fold ?f (take k xs) (initialStatus p) \<noteq> None"
  proof
    assume "p = []"
    then have "initialStatus p \<noteq> None"
      by (simp add: initialStatus_def)
    then show "fold ?f (take k xs) (initialStatus p) \<noteq> None"
      by (rule fold_nodeStep_exists)
  qed
  have atk: "?f (xs ! k) (fold ?f (take k xs) (initialStatus p)) = Some x"
    using nodeStep_terminal [OF k(2,3) exists0] k(4) by simp
  have split: "take j xs = take k xs @ xs ! k # drop (Suc k) (take j xs)"
    using id_take_nth_drop [of k "take j xs"] kj ij(2) by (simp add: min_def)
  have rest: "list_all (\<lambda>t. path t \<noteq> p) (drop (Suc k) (take j xs))"
    unfolding list_all_length
  proof (intro allI impI)
    fix n
    assume "n < length (drop (Suc k) (take j xs))"
    with ij(2) have n: "Suc k + n < j" by simp
    with jes xs have "drop (Suc k) (take j xs) ! n = es ! (Suc k + n)"
      by (simp add: nth_append)
    with later [of "Suc k + n"] n jes show "path (drop (Suc k) (take j xs) ! n) \<noteq> p"
      by simp
  qed
  have "fold ?f (take j xs) (initialStatus p) =
      fold ?f (drop (Suc k) (take j xs)) (?f (xs ! k) (fold ?f (take k xs) (initialStatus p)))"
    by (subst split) simp
  with atk fold_nodeStep_other [OF rest, of "Some x" False]
  have before_j: "fold ?f (take j xs) (initialStatus p) = Some x"
    by simp
  have at_j: "nodeStatusAt xs j p = nodeStep True p (xs ! j) (Some x)"
    using nodeStatusAt_eq [OF ij(2), of p] before_j by simp
  show ?thesis
  proof (cases "Suc j = length xs")
    case True
    with xs have "xs ! j = c" by (auto simp add: nth_append)
    with at_j c True show ?thesis
      by (auto simp add: nodeStep_def touchStatus_def)
  next
    case False
    with ij(2) xs have jl: "j < length es" by simp
    with xs have "xs ! j = es ! j" by (simp add: nth_append)
    with later [OF kj jl] have "path (xs ! j) \<noteq> p" by simp
    with at_j False show ?thesis
      by (simp add: nodeStep_other)
  qed
qed

text \<open>
  Claim C8, as stated, fails. The step at the cursor makes the node it targets
  \<open>active\<close> unless the step itself is a prune or a solution, and the final
  \<open>COMPLETE\<close> step targets the root. For the values 10, 10 and the target 25 the root is
  pruned by the first step; at cursor 0 its status is \<open>pruned\<close>, at cursor 1 (the
  \<open>COMPLETE\<close> step) it is \<open>active\<close>.
\<close>

theorem root_status_reverts_at_complete:
  "(0::nat) < 1 \<and> 1 < length (steps (generateScenario [10, 10] 25 0)) \<and>
   nodeStatusAt (steps (generateScenario [10, 10] 25 0)) 0 [] = Some pruned \<and>
   nodeStatusAt (steps (generateScenario [10, 10] 25 0)) 1 [] = Some active"
  by code_simp

text \<open>
  Claim C8, amended. For every trace produced by \<open>generateScenario\<close>, every node path
  \<open>p\<close> and all cursors \<open>i < j\<close> within the trace: if the node at \<open>p\<close> has status
  \<open>pruned\<close> (or \<open>solution\<close>) in the tree rebuilt for cursor \<open>i\<close>, it has the same
  status in the tree rebuilt for cursor \<open>j\<close>, except for the root at the last cursor,
  where the \<open>COMPLETE\<close> step makes it \<open>active\<close>. In no case is the status
  \<open>visited\<close> again.
\<close>

theorem terminal_status_persists:
  assumes "i < j" and "j < length (steps (generateScenario utxoValues tgt dust))"
    and "x = pruned \<or> x = solution"
    and "nodeStatusAt (steps (generateScenario utxoValues tgt dust)) i p = Some x"
  shows "nodeStatusAt (steps (generateScenario utxoValues tgt dust)) j p =
           Some (if p = [] \<and> Suc j = length (steps (generateScenario utxoValues tgt dust))
                 then active else x)"
proof -
  from trace_structure [of utxoValues tgt dust] obtain es c
    where "steps (generateScenario utxoValues tgt dust) = es @ [c]" and "terminalsFinal es"
      and "type c = COMPLETE" and "path c = []"
    by blast
  from terminal_status_persists_on [OF this assms] show ?thesis .
qed

theorem terminal_status_persists_witness:
  "(2::nat) < 5 \<and> 5 < length (steps (generateScenario [60, 50, 25] 110 0)) \<and>
   nodeStatusAt (steps (generateScenario [60, 50, 25] 110 0)) 2 [True, True] = Some solution \<and>
   nodeStatusAt (steps (generateScenario [60, 50, 25] 110 0)) 5 [True, True] = Some solution"
proof -
  have a: "(2::nat) < 5" by simp
  have b: "5 < length (steps (generateScenario [60, 50, 25] 110 0))"
    by (simp add: example3_length)
  have c: "solution = pruned \<or> solution = solution" by simp
  have d: "nodeStatusAt (steps (generateScenario [60, 50, 25] 110 0)) 2 [True, True]
             = Some solution"
    by code_simp
  from terminal_status_persists [OF a b c d] a b d show ?thesis
    by simp
qed

end
